theory Spec2Isabelle
  imports
    Complex_Main
    "HOL-Library.Char_ord"
    "HOL-Library.List_Lexorder"
    "HOL-Library.Multiset"
    "HOL-Library.Sublist"
begin

section \<open>The Burrows-Wheeler engine of \<open>bwt_processor.py\<close>\<close>

text \<open>
  A Python \<open>str\<close> is modelled as \<^typ>\<open>string\<close>, ordered by character code
  (\<open>Char_ord\<close>) and lexicographically with a proper prefix below its extensions
  (\<open>List_Lexorder\<close>), which is the order Python's \<open>sorted\<close> uses on
  strings. Python integers are \<^typ>\<open>int\<close>. Every implicit raise of the source
  (subscript out of range, missing key, \<open>str.index\<close> without a hit, division by
  zero) is a value \<open>Inl e\<close> of the result type.
\<close>

subsection \<open>Python primitives\<close>

datatype error = ValueError | IndexError | KeyError | ZeroDivisionError

text \<open>
  Python's subscript rule for a sequence of length \<open>len\<close>: an index in
  \<open>[-len, len)\<close> names a position, a negative one counted from the end; any
  other index raises.
\<close>

definition py_index :: "nat \<Rightarrow> int \<Rightarrow> error + nat" where
  "py_index len i =
     (if - int len \<le> i \<and> i < int len
      then Inr (nat (if i < 0 then i + int len else i))
      else Inl IndexError)"

text \<open>\<open>xs[i]\<close> and \<open>xs[i] = v\<close>.\<close>

definition py_get :: "'a list \<Rightarrow> int \<Rightarrow> error + 'a" where
  "py_get xs i = (case py_index (length xs) i of Inl e \<Rightarrow> Inl e | Inr k \<Rightarrow> Inr (xs ! k))"

definition py_set :: "'a list \<Rightarrow> int \<Rightarrow> 'a \<Rightarrow> error + 'a list" where
  "py_set xs i v =
     (case py_index (length xs) i of Inl e \<Rightarrow> Inl e | Inr k \<Rightarrow> Inr (xs[k := v]))"

text \<open>\<open>d[k]\<close> on a dictionary.\<close>

definition dict_get :: "('k \<rightharpoonup> 'v) \<Rightarrow> 'k \<Rightarrow> error + 'v" where
  "dict_get d k = (case d k of None \<Rightarrow> Inl KeyError | Some v \<Rightarrow> Inr v)"

text \<open>\<open>d.get(k, default)\<close>.\<close>

definition dict_get_default :: "('k \<rightharpoonup> 'v) \<Rightarrow> 'k \<Rightarrow> 'v \<Rightarrow> 'v" where
  "dict_get_default d k dflt = (case d k of None \<Rightarrow> dflt | Some v \<Rightarrow> v)"

text \<open>\<open>s.index(c)\<close>: the first position of \<open>c\<close>, or \<open>ValueError\<close>.\<close>

definition str_index :: "string \<Rightarrow> char \<Rightarrow> error + int" where
  "str_index s c =
     (if c \<in> set s then Inr (int (length (takeWhile (\<lambda>x. x \<noteq> c) s))) else Inl ValueError)"

text \<open>\<open>s.rstrip(c)\<close> for a one-character argument: all trailing \<open>c\<close> go.\<close>

definition rstrip :: "string \<Rightarrow> char \<Rightarrow> string" where
  "rstrip s c = rev (dropWhile (\<lambda>x. x = c) (rev s))"

text \<open>A \<open>for\<close> loop over a list whose body may raise: the first error ends it.\<close>

fun for_each :: "('a \<Rightarrow> 's \<Rightarrow> error + 's) \<Rightarrow> 'a list \<Rightarrow> 's \<Rightarrow> error + 's" where
  "for_each body [] s = Inr s"
| "for_each body (x # xs) s =
     (case body x s of Inl e \<Rightarrow> Inl e | Inr s' \<Rightarrow> for_each body xs s')"

text \<open>A list comprehension \<open>[f(x) for x in xs]\<close> whose element expression may raise.\<close>

fun collect :: "('a \<Rightarrow> error + 'b) \<Rightarrow> 'a list \<Rightarrow> error + 'b list" where
  "collect f [] = Inr []"
| "collect f (x # xs) =
     (case f x of Inl e \<Rightarrow> Inl e
      | Inr y \<Rightarrow> (case collect f xs of Inl e \<Rightarrow> Inl e | Inr ys \<Rightarrow> Inr (y # ys)))"

subsection \<open>Rotations and the transform\<close>

definition sentinel :: char where
  "sentinel = CHR ''$''"

definition cyclic_rotations :: "string \<Rightarrow> string list" where
  "cyclic_rotations text =
     (let S = text @ [sentinel]; n = length S
      in map (\<lambda>i. drop i S @ take i S) [0..<n])"

definition lexsort_list :: "string list \<Rightarrow> string list" where
  "lexsort_list text_list = sort text_list"

definition bwt :: "string \<Rightarrow> error + string" where
  "bwt text =
     (let rotations = cyclic_rotations text;
          sorted_rotations = lexsort_list rotations
      in collect (\<lambda>rotation. py_get rotation (- 1)) sorted_rotations)"

subsection \<open>Rank indexing: the LF and FL mappings\<close>

definition last_to_first_string :: "string \<Rightarrow> string" where
  "last_to_first_string bwt_string = sort bwt_string"

text \<open>
  The first loop of \<open>last_to_first_index\<close>:
  \<open>occ_L[ch] = occ_L.get(ch, 0) + 1; rank_L.append(occ_L[ch])\<close>.
\<close>

definition rank_append_step :: "char \<Rightarrow> (char \<rightharpoonup> int) \<times> int list \<Rightarrow> (char \<rightharpoonup> int) \<times> int list" where
  "rank_append_step ch st =
     (let occ = fst st; rank = snd st;
          v = dict_get_default occ ch 0 + 1
      in (occ(ch \<mapsto> v), rank @ [v]))"

text \<open>The second loop: \<open>if ch not in first_pos: first_pos[ch] = i\<close>.\<close>

definition first_pos_step :: "nat \<times> char \<Rightarrow> (char \<rightharpoonup> int) \<Rightarrow> (char \<rightharpoonup> int)" where
  "first_pos_step p first_pos =
     (let i = fst p; ch = snd p
      in if first_pos ch = None then first_pos(ch \<mapsto> int i) else first_pos)"

text \<open>The third loop: \<open>k = rank_L[i]; j = first_pos[ch] + (k - 1); index.append(j)\<close>.\<close>

definition lf_entry :: "int list \<Rightarrow> (char \<rightharpoonup> int) \<Rightarrow> nat \<times> char \<Rightarrow> error + int" where
  "lf_entry rank_L first_pos p =
     (let i = fst p; ch = snd p
      in case py_get rank_L (int i) of Inl e \<Rightarrow> Inl e
         | Inr k \<Rightarrow> (case dict_get first_pos ch of Inl e \<Rightarrow> Inl e
                     | Inr fp \<Rightarrow> Inr (fp + (k - 1))))"

definition last_to_first_index :: "string \<Rightarrow> error + int list" where
  "last_to_first_index bwt_string =
     (let first_string = last_to_first_string bwt_string;
          rank_L = snd (fold rank_append_step bwt_string (Map.empty, []));
          first_pos = fold first_pos_step (enumerate 0 first_string) Map.empty
      in collect (lf_entry rank_L first_pos) (enumerate 0 bwt_string))"

text \<open>
  The rank loops of \<open>first_to_last_index\<close> write into a preallocated list:
  \<open>occ[ch] = occ.get(ch, 0) + 1; rank[i] = occ[ch]\<close>.
\<close>

definition rank_assign_step ::
  "nat \<times> char \<Rightarrow> (char \<rightharpoonup> int) \<times> int list \<Rightarrow> error + (char \<rightharpoonup> int) \<times> int list" where
  "rank_assign_step p st =
     (let i = fst p; ch = snd p; occ = fst st; rank = snd st;
          v = dict_get_default occ ch 0 + 1
      in case py_set rank (int i) v of Inl e \<Rightarrow> Inl e
         | Inr rank' \<Rightarrow> Inr (occ(ch \<mapsto> v), rank'))"

text \<open>\<open>pos_lists_L.setdefault(ch, []).append(i)\<close>.\<close>

definition pos_lists_step :: "nat \<times> char \<Rightarrow> (char \<rightharpoonup> int list) \<Rightarrow> (char \<rightharpoonup> int list)" where
  "pos_lists_step p pos_lists =
     (let i = fst p; ch = snd p
      in pos_lists(ch \<mapsto> dict_get_default pos_lists ch [] @ [int i]))"

text \<open>The last loop: \<open>k = rank_F[i]; index[i] = pos_lists_L[ch][k - 1]\<close>.\<close>

definition fl_assign_step ::
  "int list \<Rightarrow> (char \<rightharpoonup> int list) \<Rightarrow> nat \<times> char \<Rightarrow> int list \<Rightarrow> error + int list" where
  "fl_assign_step rank_F pos_lists_L p index =
     (let i = fst p; ch = snd p
      in case py_get rank_F (int i) of Inl e \<Rightarrow> Inl e
         | Inr k \<Rightarrow> (case dict_get pos_lists_L ch of Inl e \<Rightarrow> Inl e
           | Inr pl \<Rightarrow> (case py_get pl (k - 1) of Inl e \<Rightarrow> Inl e
             | Inr v \<Rightarrow> py_set index (int i) v)))"

definition first_to_last_index :: "string \<Rightarrow> error + int list" where
  "first_to_last_index bwt_string =
     (let first_string = last_to_first_string bwt_string;
          n = length bwt_string
      in case for_each rank_assign_step (enumerate 0 bwt_string) (Map.empty, replicate n 0) of
           Inl e \<Rightarrow> Inl e
         | Inr stL \<Rightarrow>
           (let pos_lists_L = fold pos_lists_step (enumerate 0 bwt_string) Map.empty
            in (case for_each rank_assign_step (enumerate 0 first_string) (Map.empty, replicate n 0) of
                  Inl e \<Rightarrow> Inl e
                | Inr stF \<Rightarrow>
                  (let rank_F = snd stF
                   in for_each (fl_assign_step rank_F pos_lists_L)
                        (enumerate 0 first_string) (replicate n 0)))))"

subsection \<open>Inversion\<close>

text \<open>The body of the walk: \<open>output.append(L[j]); j = next_row[j]\<close>.\<close>

definition invert_step :: "string \<Rightarrow> int list \<Rightarrow> nat \<Rightarrow> string \<times> int \<Rightarrow> error + string \<times> int" where
  "invert_step L next_row u st =
     (let output = fst st; j = snd st
      in case py_get L j of Inl e \<Rightarrow> Inl e
         | Inr c \<Rightarrow> (case py_get next_row j of Inl e \<Rightarrow> Inl e
                     | Inr j' \<Rightarrow> Inr (output @ [c], j')))"

definition invert_bwt :: "string \<Rightarrow> error + string" where
  "invert_bwt bwt_string =
     (let L = bwt_string; n = length L
      in case last_to_first_index L of Inl e \<Rightarrow> Inl e
         | Inr next_row \<Rightarrow>
           (case str_index L sentinel of Inl e \<Rightarrow> Inl e
            | Inr j \<Rightarrow>
              (case for_each (invert_step L next_row) [0..<n] ([], j) of Inl e \<Rightarrow> Inl e
               | Inr st \<Rightarrow> Inr (rstrip (rev (fst st)) sentinel))))"

subsection \<open>Backward search\<close>

text \<open>
  \<open>[i for i in range(top, bottom + 1) if lastcol_str[i] == symbol]\<close>: the subscript
  is evaluated for every \<open>i\<close> of the range, in order.
\<close>

fun scan_positions :: "string \<Rightarrow> char \<Rightarrow> int list \<Rightarrow> error + int list" where
  "scan_positions lastcol_str symbol [] = Inr []"
| "scan_positions lastcol_str symbol (i # is) =
     (case py_get lastcol_str i of Inl e \<Rightarrow> Inl e
      | Inr c \<Rightarrow>
        (case scan_positions lastcol_str symbol is of Inl e \<Rightarrow> Inl e
         | Inr ps \<Rightarrow> Inr (if c = symbol then i # ps else ps)))"

text \<open>
  The \<open>while\<close> loop of \<open>bw_matching\<close>, on the loop variables; \<open>None\<close> would be
  a loop that never returns.
\<close>

partial_function (option) bw_loop ::
  "string \<Rightarrow> int list \<Rightarrow> int \<Rightarrow> int \<Rightarrow> string \<Rightarrow> (error + int) option" where
  "bw_loop lastcol_str last_to_first_idx top_pointer bottom_pointer pattern =
     (if top_pointer \<le> bottom_pointer then
        if pattern \<noteq> [] then
          let symbol = last pattern; pattern' = butlast pattern
          in case scan_positions lastcol_str symbol [top_pointer..bottom_pointer] of
               Inl e \<Rightarrow> Some (Inl e)
             | Inr current_positions \<Rightarrow>
               if current_positions = [] then Some (Inr 0)
               else (case py_get last_to_first_idx (hd current_positions) of
                       Inl e \<Rightarrow> Some (Inl e)
                     | Inr top' \<Rightarrow>
                       (case py_get last_to_first_idx (last current_positions) of
                          Inl e \<Rightarrow> Some (Inl e)
                        | Inr bottom' \<Rightarrow>
                            bw_loop lastcol_str last_to_first_idx top' bottom' pattern'))
        else Some (Inr (bottom_pointer - top_pointer + 1))
      else Some (Inr 0))"

declare bw_loop.simps [code]

definition bw_matching :: "string \<Rightarrow> string \<Rightarrow> string \<Rightarrow> int list \<Rightarrow> (error + int) option" where
  "bw_matching firstcol_str lastcol_str pattern last_to_first_idx =
     bw_loop lastcol_str last_to_first_idx 0 (int (length lastcol_str) - 1) pattern"

definition bwa_search :: "string \<Rightarrow> string \<Rightarrow> (error + int) option" where
  "bwa_search text_string pattern =
     (case bwt text_string of Inl e \<Rightarrow> Some (Inl e)
      | Inr bwt_string \<Rightarrow>
        (let first_col = last_to_first_string bwt_string
         in (case last_to_first_index bwt_string of Inl e \<Rightarrow> Some (Inl e)
             | Inr last_to_first_idx \<Rightarrow>
                 bw_matching first_col bwt_string pattern last_to_first_idx)))"

subsection \<open>Compression statistics\<close>

text \<open>The nested \<open>count_runs\<close>; the range \<open>range(1, len(s))\<close> keeps both subscripts inside.\<close>

definition count_runs :: "string \<Rightarrow> int" where
  "count_runs s =
     (if s = [] then 0
      else fold (\<lambda>i runs. if s ! i \<noteq> s ! (i - 1) then runs + 1 else runs) [1..<length s] 1)"

text \<open>
  Python's floats are idealised as real numbers: \<open>a / b\<close> raises on a zero divisor,
  \<open>math.log2\<close> raises on a non-positive argument.
\<close>

definition py_truediv :: "real \<Rightarrow> real \<Rightarrow> error + real" where
  "py_truediv a b = (if b = 0 then Inl ZeroDivisionError else Inr (a / b))"

definition py_log2 :: "real \<Rightarrow> error + real" where
  "py_log2 x = (if 0 < x then Inr (log 2 x) else Inl ValueError)"

text \<open>\<open>Counter(s).values()\<close>: one count per distinct symbol, in order of first occurrence.\<close>

definition counter_values :: "string \<Rightarrow> int list" where
  "counter_values s = map (\<lambda>c. int (count_list s c)) (rev (remdups (rev s)))"

definition entropy_step :: "nat \<Rightarrow> int \<Rightarrow> real \<Rightarrow> error + real" where
  "entropy_step len cnt entropy =
     (case py_truediv (real_of_int cnt) (real len) of Inl e \<Rightarrow> Inl e
      | Inr p \<Rightarrow>
        if 0 < p then (case py_log2 p of Inl e \<Rightarrow> Inl e | Inr l \<Rightarrow> Inr (entropy - p * l))
        else Inr entropy)"

definition calculate_entropy :: "string \<Rightarrow> error + real" where
  "calculate_entropy s =
     (if s = [] then Inr 0
      else for_each (entropy_step (length s)) (counter_values s) 0)"

record compression_stats =
  original_length :: int
  bwt_length :: int
  original_runs :: int
  bwt_runs :: int
  run_reduction_ratio :: real
  original_entropy :: real
  bwt_entropy :: real
  entropy_reduction :: real

definition analyze_compression :: "string \<Rightarrow> error + compression_stats" where
  "analyze_compression text =
     (case bwt text of Inl e \<Rightarrow> Inl e
      | Inr bwt_result \<Rightarrow>
        (let orig_runs = count_runs text;
             b_runs = count_runs bwt_result
         in (case calculate_entropy text of Inl e \<Rightarrow> Inl e
             | Inr orig_entropy \<Rightarrow>
               (case calculate_entropy bwt_result of Inl e \<Rightarrow> Inl e
                | Inr b_entropy \<Rightarrow>
                  (case (if 0 < orig_runs
                         then py_truediv (real_of_int b_runs) (real_of_int orig_runs)
                         else Inr 0) of
                     Inl e \<Rightarrow> Inl e
                   | Inr ratio \<Rightarrow>
                       Inr \<lparr> original_length = int (length text),
                             bwt_length = int (length bwt_result),
                             original_runs = orig_runs,
                             bwt_runs = b_runs,
                             run_reduction_ratio = ratio,
                             original_entropy = orig_entropy,
                             bwt_entropy = b_entropy,
                             entropy_reduction = orig_entropy - b_entropy \<rparr>)))))"

subsection \<open>Specification functions\<close>

text \<open>
  What the rank arrays compute, stated on the string alone: the number of symbols
  below \<open>c\<close>, the number of earlier occurrences of the symbol at a position, the
  positions of a symbol, and the two mappings built from them.
\<close>

definition less_count :: "'a::linorder list \<Rightarrow> 'a \<Rightarrow> nat" where
  "less_count L c = length (filter (\<lambda>x. x < c) L)"

definition occ_before :: "'a list \<Rightarrow> nat \<Rightarrow> nat" where
  "occ_before L i = count_list (take i L) (L ! i)"

definition lf :: "'a::linorder list \<Rightarrow> nat \<Rightarrow> nat" where
  "lf L i = less_count L (L ! i) + occ_before L i"

definition positions_of :: "'a list \<Rightarrow> 'a \<Rightarrow> nat list" where
  "positions_of L c = filter (\<lambda>i. L ! i = c) [0..<length L]"

definition fl :: "'a::linorder list \<Rightarrow> nat \<Rightarrow> nat" where
  "fl L k = positions_of L (sort L ! k) ! occ_before (sort L) k"

text \<open>
  The sorted rotation table of \<open>text + "$"\<close>, its last column, and the rotation
  of a row one step to the right.
\<close>

definition rotate_right :: "'a list \<Rightarrow> 'a list" where
  "rotate_right x = last x # butlast x"

definition table :: "string \<Rightarrow> string list" where
  "table S = sort (cyclic_rotations S)"

definition column :: "string \<Rightarrow> string" where
  "column S = map last (table S)"

text \<open>The rows of the table whose rotation begins with \<open>Q\<close>.\<close>

definition rows :: "string \<Rightarrow> string \<Rightarrow> nat set" where
  "rows S Q = {j. j < Suc (length S) \<and> prefix Q (table S ! j)}"

text \<open>The number of start offsets \<open>i\<close> of \<open>S\<close> with \<open>S[i:i+len(P)] == P\<close>.\<close>

definition occurrences :: "string \<Rightarrow> string \<Rightarrow> nat" where
  "occurrences S P = length (filter (\<lambda>i. take (length P) (drop i S) = P) [0..<length S])"

section \<open>Verification\<close>

subsection \<open>The transform as a pure function\<close>

lemma collect_Inr: "(\<And>x. x \<in> set xs \<Longrightarrow> f x = Inr (g x)) \<Longrightarrow> collect f xs = Inr (map g xs)"
  by (induction xs) auto

lemma py_get_nat: "i < length xs \<Longrightarrow> py_get xs (int i) = Inr (xs ! i)"
  by (simp add: py_get_def py_index_def)

lemma py_get_last: "xs \<noteq> [] \<Longrightarrow> py_get xs (- 1) = Inr (last xs)"
  by (cases xs rule: rev_cases) (simp_all add: py_get_def py_index_def)

lemma py_set_nat: "i < length xs \<Longrightarrow> py_set xs (int i) v = Inr (xs[i := v])"
  by (simp add: py_set_def py_index_def)

lemma cyclic_rotations_rotate:
  "cyclic_rotations text = map (\<lambda>i. rotate i (text @ [sentinel])) [0..<Suc (length text)]"
  by (simp add: cyclic_rotations_def Let_def rotate_drop_take del: upt_Suc)

lemma bwt_eq: "bwt text = Inr (map last (sort (cyclic_rotations text)))"
proof -
  have "x \<noteq> []" if "x \<in> set (sort (cyclic_rotations text))" for x
    using that by (auto simp: cyclic_rotations_rotate simp del: upt_Suc)
  then show ?thesis
    unfolding bwt_def lexsort_list_def Let_def
    by (intro collect_Inr py_get_last)
qed

lemma map_last_rotations:
  assumes "T \<noteq> []"
  shows "map (\<lambda>i. last (rotate i T)) [0..<length T] = rotate (length T - 1) T"
proof (rule nth_equalityI)
  show "length (map (\<lambda>i. last (rotate i T)) [0..<length T]) = length (rotate (length T - 1) T)"
    by simp
next
  fix i assume "i < length (map (\<lambda>i. last (rotate i T)) [0..<length T])"
  then have i: "i < length T" by simp
  have "last (rotate i T) = rotate i T ! (length T - 1)"
    using assms by (simp add: last_conv_nth)
  also have "\<dots> = T ! ((i + (length T - 1)) mod length T)"
    using assms by (simp add: nth_rotate)
  also have "\<dots> = rotate (length T - 1) T ! i"
    using i by (simp add: nth_rotate add.commute)
  finally show "map (\<lambda>i. last (rotate i T)) [0..<length T] ! i = rotate (length T - 1) T ! i"
    using i by simp
qed

lemma map_hd_rotations: "map (\<lambda>i. hd (rotate i T)) [0..<length T] = T"
proof (rule nth_equalityI)
  fix i assume "i < length (map (\<lambda>i. hd (rotate i T)) [0..<length T])"
  then have i: "i < length T" by simp
  then have "hd (rotate i T) = rotate i T ! 0"
    by (intro hd_conv_nth) auto
  also have "\<dots> = T ! i" using i by (subst nth_rotate) auto
  finally show "map (\<lambda>i. hd (rotate i T)) [0..<length T] ! i = T ! i" using i by simp
qed simp

lemma mset_rotate1_eq: "mset (rotate1 xs) = mset xs"
  by (cases xs) simp_all

lemma mset_rotate_eq: "mset (rotate n xs) = mset xs"
  by (induction n) (simp_all add: mset_rotate1_eq)

lemma mset_bwt_column:
  "mset (map last (sort (cyclic_rotations text))) = mset (text @ [sentinel])"
proof -
  let ?T = "text @ [sentinel]"
  have "map last (cyclic_rotations text) = map (\<lambda>i. last (rotate i ?T)) [0..<length ?T]"
    by (simp add: cyclic_rotations_rotate del: upt_Suc)
  moreover have "mset (map last (sort (cyclic_rotations text))) = mset (map last (cyclic_rotations text))"
    by simp
  ultimately have "mset (map last (sort (cyclic_rotations text))) =
      mset (map (\<lambda>i. last (rotate i ?T)) [0..<length ?T])"
    by simp
  also have "\<dots> = mset (rotate (length ?T - 1) ?T)"
    by (subst map_last_rotations) simp_all
  also have "\<dots> = mset ?T"
    by (rule mset_rotate_eq)
  finally show ?thesis .
qed

lemma length_bwt_column: "length (map last (sort (cyclic_rotations text))) = Suc (length text)"
  by (simp add: cyclic_rotations_rotate del: upt_Suc)


lemma bw_loop_total: "\<exists>r. bw_loop L LF tp bt P = Some r"
proof (induction "length P" arbitrary: P tp bt)
  case 0
  then show ?case by (subst bw_loop.simps) simp
next
  case (Suc n)
  then have len: "n = length (butlast P)" by simp
  show ?case
    by (subst bw_loop.simps) (auto simp: Let_def Suc.hyps(1)[OF len] split: sum.splits)
qed

subsection \<open>What the rank loops compute\<close>

lemma fold_rank_append:
  "fold rank_append_step xs (Map.empty, []) =
    ((\<lambda>c. if c \<in> set xs then Some (int (count_list xs c)) else None),
     map (\<lambda>i. int (count_list (take (Suc i) xs) (xs ! i))) [0..<length xs])"
proof (induction xs rule: rev_induct)
  case Nil
  show ?case by simp
next
  case (snoc x xs)
  have rk: "map (\<lambda>i. int (count_list (take (Suc i) (xs @ [x])) ((xs @ [x]) ! i))) [0..<length xs]
      = map (\<lambda>i. int (count_list (take (Suc i) xs) (xs ! i))) [0..<length xs]"
    by (rule map_cong) (auto simp: nth_append)
  have "fold rank_append_step (xs @ [x]) (Map.empty, []) =
      rank_append_step x (fold rank_append_step xs (Map.empty, []))"
    by simp
  also have "\<dots> = rank_append_step x
      ((\<lambda>c. if c \<in> set xs then Some (int (count_list xs c)) else None),
       map (\<lambda>i. int (count_list (take (Suc i) xs) (xs ! i))) [0..<length xs])"
    by (simp only: snoc.IH)
  also have "\<dots> = ((\<lambda>c. if c \<in> set (xs @ [x]) then Some (int (count_list (xs @ [x]) c)) else None),
     map (\<lambda>i. int (count_list (take (Suc i) (xs @ [x])) ((xs @ [x]) ! i))) [0..<length (xs @ [x])])"
    using rk
    by (auto simp: rank_append_step_def dict_get_default_def Let_def fun_eq_iff)
  finally show ?case .
qed

lemma takeWhile_neq_snoc: "x \<notin> set xs \<Longrightarrow> takeWhile (\<lambda>y. y \<noteq> x) (xs @ [x]) = xs"
  by (induction xs) auto

lemma fold_first_pos:
  "fold first_pos_step (enumerate 0 xs) Map.empty =
    (\<lambda>c. if c \<in> set xs then Some (int (length (takeWhile (\<lambda>x. x \<noteq> c) xs))) else None)"
proof (induction xs rule: rev_induct)
  case Nil
  show ?case by simp
next
  case (snoc x xs)
  have "fold first_pos_step (enumerate 0 (xs @ [x])) Map.empty =
      first_pos_step (length xs, x) (fold first_pos_step (enumerate 0 xs) Map.empty)"
    by (simp add: enumerate_append_eq)
  also have "\<dots> = first_pos_step (length xs, x)
      (\<lambda>c. if c \<in> set xs then Some (int (length (takeWhile (\<lambda>x. x \<noteq> c) xs))) else None)"
    by (simp only: snoc.IH)
  also have "\<dots> = (\<lambda>c. if c \<in> set (xs @ [x])
      then Some (int (length (takeWhile (\<lambda>x. x \<noteq> c) (xs @ [x])))) else None)"
    by (auto simp: first_pos_step_def Let_def fun_eq_iff takeWhile_neq_snoc)
  finally show ?case .
qed

lemma takeWhile_neq_sorted:
  "sorted xs \<Longrightarrow> c \<in> set xs \<Longrightarrow> takeWhile (\<lambda>x. x \<noteq> c) xs = filter (\<lambda>x. x < c) xs"
proof (induction xs)
  case Nil
  then show ?case by simp
next
  case (Cons x xs)
  show ?case
  proof (cases "x = c")
    case True
    with Cons.prems have "\<forall>y\<in>set (x # xs). \<not> y < c" by auto
    then have "filter (\<lambda>x. x < c) (x # xs) = []" by (simp only: filter_empty_conv) 
    with True show ?thesis by simp
  next
    case False
    with Cons.prems have "c \<in> set xs" "x < c" "sorted xs" by auto
    with Cons.IH False show ?thesis by simp
  qed
qed

lemma first_index_sort:
  assumes "c \<in> set L"
  shows "length (takeWhile (\<lambda>x. x \<noteq> c) (sort L)) = less_count L c"
proof -
  have "takeWhile (\<lambda>x. x \<noteq> c) (sort L) = filter (\<lambda>x. x < c) (sort L)"
    using assms by (intro takeWhile_neq_sorted) simp_all
  also have "\<dots> = sort (filter (\<lambda>x. x < c) L)"
    by (rule filter_sort)
  finally show ?thesis by (simp add: less_count_def)
qed

lemma lf_entry_eq:
  assumes "i < length L"
  shows "lf_entry (snd (fold rank_append_step L (Map.empty, [])))
           (fold first_pos_step (enumerate 0 (sort L)) Map.empty) (i, L ! i) = Inr (int (lf L i))"
proof -
  have "count_list (take (Suc i) L) (L ! i) = Suc (occ_before L i)"
    using assms by (simp add: take_Suc_conv_app_nth occ_before_def)
  moreover have "L ! i \<in> set L" using assms by simp
  ultimately show ?thesis
    using assms
    by (simp add: lf_entry_def fold_rank_append fold_first_pos py_get_nat dict_get_def
        first_index_sort lf_def)
qed

lemma last_to_first_index_eq:
  "last_to_first_index L = Inr (map (\<lambda>i. int (lf L i)) [0..<length L])"
proof -
  have "collect (lf_entry (snd (fold rank_append_step L (Map.empty, [])))
           (fold first_pos_step (enumerate 0 (sort L)) Map.empty)) (enumerate 0 L)
        = Inr (map (\<lambda>p. int (lf L (fst p))) (enumerate 0 L))"
  proof (rule collect_Inr)
    fix p assume "p \<in> set (enumerate 0 L)"
    then have "fst p < length L" "snd p = L ! fst p"
      by (auto simp: in_set_enumerate_eq)
    then show "lf_entry (snd (fold rank_append_step L (Map.empty, [])))
           (fold first_pos_step (enumerate 0 (sort L)) Map.empty) p = Inr (int (lf L (fst p)))"
      using lf_entry_eq[of "fst p" L] by (cases p) simp
  qed
  moreover have "map (\<lambda>p. int (lf L (fst p))) (enumerate 0 L) = map (\<lambda>i. int (lf L i)) (map fst (enumerate 0 L))"
    by (simp only: map_map comp_def)
  ultimately show ?thesis
    by (simp add: last_to_first_index_def last_to_first_string_def Let_def)
qed

subsection \<open>Counting\<close>

lemma count_list_filter_eq: "count_list xs c = length (filter (\<lambda>x. x = c) xs)"
  by (induction xs) auto

lemma less_count_sort: "less_count (sort L) c = less_count L c"
  by (simp add: less_count_def filter_sort)

lemma count_list_sort: "count_list (sort L) c = count_list L c"
  by (simp add: count_list_filter_eq filter_sort)

lemma less_count_plus_count_le: "less_count L c + count_list L c \<le> length L"
  unfolding less_count_def by (induction L) auto

lemma occ_before_less_count:
  assumes "i < length L"
  shows "occ_before L i < count_list L (L ! i)"
proof -
  have "L = take i L @ L ! i # drop (Suc i) L"
    using assms by (rule id_take_nth_drop)
  then have "count_list L (L ! i) = count_list (take i L @ L ! i # drop (Suc i) L) (L ! i)"
    by simp
  then show ?thesis
    by (simp add: occ_before_def)
qed

lemma lf_less_length:
  assumes "i < length L"
  shows "lf L i < length L"
  using occ_before_less_count[OF assms] less_count_plus_count_le[of L "L ! i"]
  by (simp add: lf_def)

subsection \<open>Positions of a symbol\<close>

lemma length_positions_upto:
  "i \<le> length L \<Longrightarrow> length (filter (\<lambda>j. L ! j = c) [0..<i]) = count_list (take i L) c"
proof (induction i)
  case 0
  show ?case by simp
next
  case (Suc i)
  then show ?case by (simp add: take_Suc_conv_app_nth)
qed

lemma length_positions_of: "length (positions_of L c) = count_list L c"
  using length_positions_upto[of "length L" L c] by (simp add: positions_of_def)

lemma positions_of_nth_occ:
  assumes "i < length L"
  shows "positions_of L (L ! i) ! occ_before L i = i"
proof -
  let ?P = "\<lambda>j. L ! j = L ! i"
  have "[0..<length L] = [0..<i] @ i # [Suc i..<length L]"
    using assms by (metis le_add1 less_imp_add_positive upt_add_eq_append upt_conv_Cons plus_nat.add_0)
  then have "positions_of L (L ! i) = filter ?P [0..<i] @ i # filter ?P [Suc i..<length L]"
    by (simp add: positions_of_def)
  moreover have "length (filter ?P [0..<i]) = occ_before L i"
    using assms by (simp add: length_positions_upto occ_before_def)
  ultimately show ?thesis
    by (simp add: nth_append)
qed

lemma positions_of_nth:
  assumes "r < count_list L c"
  shows "positions_of L c ! r < length L"
    and "L ! (positions_of L c ! r) = c"
    and "occ_before L (positions_of L c ! r) = r"
proof -
  let ?p = "positions_of L c ! r"
  have "?p \<in> set (positions_of L c)"
    using assms by (simp add: length_positions_of)
  then show p: "?p < length L" and c: "L ! ?p = c"
    by (simp_all add: positions_of_def)
  have "occ_before L ?p < count_list L c"
    using occ_before_less_count[OF p] c by simp
  moreover have "positions_of L c ! occ_before L ?p = positions_of L c ! r"
    using positions_of_nth_occ[OF p] c by simp
  moreover have "distinct (positions_of L c)"
    by (simp add: positions_of_def)
  ultimately show "occ_before L ?p = r"
    using assms by (simp add: nth_eq_iff_index_eq length_positions_of)
qed

subsection \<open>The shape of a sorted list\<close>

lemma filter_eq_replicate: "filter (\<lambda>x. x = c) xs = replicate (count_list xs c) c"
  by (induction xs) auto

lemma count_list_replicate: "count_list (replicate n c) c = n"
  by (induction n) simp_all

lemma sorted_three_parts:
  "sorted (xs::'a::linorder list) \<Longrightarrow>
     xs = filter (\<lambda>x. x < c) xs @ replicate (count_list xs c) c @ filter (\<lambda>x. c < x) xs"
proof (induction xs)
  case Nil
  show ?case by simp
next
  case (Cons x xs)
  then have IH: "xs = filter (\<lambda>x. x < c) xs @ replicate (count_list xs c) c @ filter (\<lambda>x. c < x) xs"
    and ge: "\<forall>y\<in>set xs. x \<le> y" by simp_all
  consider "x < c" | "x = c" | "c < x" by fastforce
  then show ?case
  proof cases
    case 1
    then show ?thesis using IH by auto
  next
    case 2
    then have "filter (\<lambda>x. x < c) xs = []" using ge by (auto simp: filter_empty_conv)
    then show ?thesis using IH 2 by auto
  next
    case 3
    then have "c \<notin> set xs" using ge by auto
    then have "count_list xs c = 0" by (simp add: count_list_0_iff)
    moreover have "filter (\<lambda>x. x < c) xs = []" "filter (\<lambda>x. c < x) xs = xs"
      using 3 ge by (auto simp: filter_empty_conv filter_id_conv)
    ultimately have "filter (\<lambda>x. x < c) xs = []" "count_list xs c = 0" "filter (\<lambda>x. c < x) xs = xs"
      by simp_all
    then show ?thesis using 3 by auto
  qed
qed

lemma sorted_nth_block:
  assumes "sorted F" and "r < count_list F c"
  shows "F ! (less_count F c + r) = c"
    and "occ_before F (less_count F c + r) = r"
proof -
  let ?A = "filter (\<lambda>x. x < c) F"
  let ?n = "count_list F c"
  have F: "F = ?A @ replicate ?n c @ filter (\<lambda>x. c < x) F"
    using assms(1) by (rule sorted_three_parts)
  have len: "less_count F c = length ?A" by (simp add: less_count_def)
  have "F ! (less_count F c + r) = (?A @ replicate ?n c @ filter (\<lambda>x. c < x) F) ! (length ?A + r)"
    using F len by simp
  also have "\<dots> = c"
    using assms(2) by (simp add: nth_append)
  finally show c: "F ! (less_count F c + r) = c" .
  have "take (less_count F c + r) F = take (length ?A + r) (?A @ replicate ?n c @ filter (\<lambda>x. c < x) F)"
    using F len by simp
  also have "\<dots> = ?A @ replicate r c"
    using assms(2) by (simp add: min_def)
  finally have "count_list (take (less_count F c + r) F) c = count_list ?A c + r"
    by (simp add: count_list_replicate)
  moreover have "count_list ?A c = 0"
    by (simp add: count_list_0_iff)
  ultimately have "count_list (take (less_count F c + r) F) c = r"
    by simp
  then show "occ_before F (less_count F c + r) = r"
    using c by (simp add: occ_before_def)
qed

lemma all_le_length_split:
  "\<forall>x\<in>set xs. x \<le> (c::'a::linorder) \<Longrightarrow> length xs = length (filter (\<lambda>x. x < c) xs) + count_list xs c"
  by (induction xs) auto

lemma sorted_index_split:
  assumes "sorted F" and "k < length F"
  shows "less_count F (F ! k) + occ_before F k = k"
proof -
  let ?c = "F ! k"
  have le: "\<forall>x\<in>set (take k F). x \<le> ?c"
    using assms by (auto simp: in_set_conv_nth sorted_nth_mono)
  have ge: "\<forall>x\<in>set (drop k F). ?c \<le> x"
    using assms by (auto simp: in_set_conv_nth sorted_nth_mono)
  have "filter (\<lambda>x. x < ?c) F = filter (\<lambda>x. x < ?c) (take k F) @ filter (\<lambda>x. x < ?c) (drop k F)"
    by (metis append_take_drop_id filter_append)
  moreover have "filter (\<lambda>x. x < ?c) (drop k F) = []"
    using ge by (auto simp: filter_empty_conv)
  ultimately have "less_count F ?c = length (filter (\<lambda>x. x < ?c) (take k F))"
    by (simp add: less_count_def)
  moreover have "length (take k F) = length (filter (\<lambda>x. x < ?c) (take k F)) + count_list (take k F) ?c"
    using le by (rule all_le_length_split)
  ultimately show ?thesis
    using assms(2) by (simp add: occ_before_def)
qed

subsection \<open>The two mappings are inverse to each other\<close>

lemma fl_lf:
  assumes "i < length L"
  shows "fl L (lf L i) = i"
proof -
  let ?c = "L ! i" and ?r = "occ_before L i"
  have r: "?r < count_list (sort L) ?c"
    using occ_before_less_count[OF assms] by (simp add: count_list_sort)
  have lf: "lf L i = less_count (sort L) ?c + ?r"
    by (simp add: lf_def less_count_sort)
  have "sort L ! lf L i = ?c" "occ_before (sort L) (lf L i) = ?r"
    using sorted_nth_block[OF sorted_sort r] lf by simp_all
  then show ?thesis
    using positions_of_nth_occ[OF assms] by (simp add: fl_def)
qed

lemma fl_props:
  assumes "k < length L"
  shows "fl L k < length L" and "lf L (fl L k) = k" and "L ! fl L k = sort L ! k"
proof -
  let ?F = "sort L"
  let ?c = "?F ! k" and ?r = "occ_before ?F k"
  have "?r < count_list ?F ?c"
    using assms by (intro occ_before_less_count) simp
  then have r: "?r < count_list L ?c" by (simp add: count_list_sort)
  have p: "fl L k = positions_of L ?c ! ?r" by (simp add: fl_def)
  show "fl L k < length L" using positions_of_nth(1)[OF r] p by simp
  show c: "L ! fl L k = ?F ! k" using positions_of_nth(2)[OF r] p by simp
  have "occ_before L (fl L k) = ?r" using positions_of_nth(3)[OF r] p by simp
  then have "lf L (fl L k) = less_count ?F ?c + ?r"
    using c by (simp add: lf_def less_count_sort)
  also have "\<dots> = k"
    using assms by (intro sorted_index_split) simp_all
  finally show "lf L (fl L k) = k" .
qed

subsection \<open>The FL loops\<close>

lemma for_each_append:
  "for_each body (xs @ ys) s =
     (case for_each body xs s of Inl e \<Rightarrow> Inl e | Inr s' \<Rightarrow> for_each body ys s')"
  by (induction xs arbitrary: s) (auto split: sum.splits)

lemma fill_step:
  assumes "length A = m" and "m < n"
  shows "py_set (A @ replicate (n - m) d) (int m) v = Inr ((A @ [v]) @ replicate (n - Suc m) d)"
proof -
  have "n - m = Suc (n - Suc m)" using assms(2) by simp
  then have "replicate (n - m) d = d # replicate (n - Suc m) d" by simp
  then show ?thesis
    using assms by (simp add: py_set_nat list_update_append)
qed

lemma rank_list_snoc:
  "map (\<lambda>i. int (count_list (take (Suc i) (xs @ [x])) ((xs @ [x]) ! i))) [0..<length (xs @ [x])]
     = map (\<lambda>i. int (count_list (take (Suc i) xs) (xs ! i))) [0..<length xs] @ [int (count_list xs x) + 1]"
proof -
  have "map (\<lambda>i. int (count_list (take (Suc i) (xs @ [x])) ((xs @ [x]) ! i))) [0..<length xs]
      = map (\<lambda>i. int (count_list (take (Suc i) xs) (xs ! i))) [0..<length xs]"
    by (rule map_cong) (auto simp: nth_append)
  then show ?thesis by simp
qed

lemma for_each_rank_assign:
  "length xs \<le> n \<Longrightarrow>
   for_each rank_assign_step (enumerate 0 xs) (Map.empty, replicate n 0) =
     Inr ((\<lambda>c. if c \<in> set xs then Some (int (count_list xs c)) else None),
          map (\<lambda>i. int (count_list (take (Suc i) xs) (xs ! i))) [0..<length xs]
            @ replicate (n - length xs) 0)"
proof (induction xs rule: rev_induct)
  case Nil
  show ?case by simp
next
  case (snoc x xs)
  let ?occ = "\<lambda>c. if c \<in> set xs then Some (int (count_list xs c)) else None"
  let ?rk = "map (\<lambda>i. int (count_list (take (Suc i) xs) (xs ! i))) [0..<length xs]"
  from snoc.prems have m: "length xs < n" by simp
  have v: "dict_get_default ?occ x 0 + 1 = int (count_list xs x) + 1"
    by (simp add: dict_get_default_def count_list_0_iff)
  have step: "rank_assign_step (length xs, x) (?occ, ?rk @ replicate (n - length xs) 0)
      = Inr (?occ(x \<mapsto> int (count_list xs x) + 1),
             (?rk @ [int (count_list xs x) + 1]) @ replicate (n - Suc (length xs)) 0)"
    unfolding rank_assign_step_def Let_def fst_conv snd_conv v
    using m by (subst fill_step) simp_all
  have occ: "?occ(x \<mapsto> int (count_list xs x) + 1)
      = (\<lambda>c. if c \<in> set (xs @ [x]) then Some (int (count_list (xs @ [x]) c)) else None)"
    by (auto simp: fun_eq_iff)
  have "for_each rank_assign_step (enumerate 0 (xs @ [x])) (Map.empty, replicate n 0)
      = rank_assign_step (length xs, x) (?occ, ?rk @ replicate (n - length xs) 0)"
    using snoc.IH m by (simp add: enumerate_append_eq for_each_append split: sum.splits)
  also note step
  finally have "for_each rank_assign_step (enumerate 0 (xs @ [x])) (Map.empty, replicate n 0)
      = Inr (?occ(x \<mapsto> int (count_list xs x) + 1),
             (?rk @ [int (count_list xs x) + 1]) @ replicate (n - length (xs @ [x])) 0)"
    by simp
  then show ?case
    unfolding rank_list_snoc occ[symmetric] .
qed

lemma positions_of_snoc:
  "positions_of (xs @ [x]) c = positions_of xs c @ (if x = c then [length xs] else [])"
proof -
  have "filter (\<lambda>i. (xs @ [x]) ! i = c) [0..<length xs] = filter (\<lambda>i. xs ! i = c) [0..<length xs]"
    by (rule filter_cong) (auto simp: nth_append)
  then show ?thesis by (simp add: positions_of_def)
qed

lemma positions_of_Nil_iff: "positions_of xs c = [] \<longleftrightarrow> c \<notin> set xs"
  by (auto simp: positions_of_def filter_empty_conv in_set_conv_nth)

lemma fold_pos_lists:
  "fold pos_lists_step (enumerate 0 xs) Map.empty =
     (\<lambda>c. if c \<in> set xs then Some (map int (positions_of xs c)) else None)"
proof (induction xs rule: rev_induct)
  case Nil
  show ?case by simp
next
  case (snoc x xs)
  have "fold pos_lists_step (enumerate 0 (xs @ [x])) Map.empty =
      pos_lists_step (length xs, x) (fold pos_lists_step (enumerate 0 xs) Map.empty)"
    by (simp add: enumerate_append_eq)
  also have "\<dots> = pos_lists_step (length xs, x)
      (\<lambda>c. if c \<in> set xs then Some (map int (positions_of xs c)) else None)"
    by (simp only: snoc.IH)
  also have "\<dots> = (\<lambda>c. if c \<in> set (xs @ [x]) then Some (map int (positions_of (xs @ [x]) c)) else None)"
    by (auto simp: pos_lists_step_def dict_get_default_def Let_def fun_eq_iff positions_of_snoc
        positions_of_Nil_iff)
  finally show ?case .
qed

lemma fl_assign_step_eq:
  assumes m: "m < length L" and A: "length A = m"
  shows "fl_assign_step
           (map (\<lambda>i. int (count_list (take (Suc i) (sort L)) (sort L ! i))) [0..<length L])
           (\<lambda>c. if c \<in> set L then Some (map int (positions_of L c)) else None)
           (m, sort L ! m) (A @ replicate (length L - m) 0)
         = Inr ((A @ [int (fl L m)]) @ replicate (length L - Suc m) 0)"
proof -
  let ?F = "sort L"
  let ?c = "?F ! m"
  have k: "int (count_list (take (Suc m) ?F) ?c) - 1 = int (occ_before ?F m)"
    using m by (simp add: take_Suc_conv_app_nth occ_before_def)
  have "?c \<in> set ?F" using m by (intro nth_mem) simp
  then have c: "?c \<in> set L" by simp
  have "occ_before ?F m < count_list ?F ?c"
    using m by (intro occ_before_less_count) simp
  then have r: "occ_before ?F m < length (positions_of L ?c)"
    by (simp add: count_list_sort length_positions_of)
  have get: "py_get (map int (positions_of L ?c)) (int (occ_before ?F m)) = Inr (int (fl L m))"
    using r by (simp add: py_get_nat fl_def)
  show ?thesis
    unfolding fl_assign_step_def Let_def fst_conv snd_conv
    using m c A by (simp add: py_get_nat dict_get_def k get fill_step del: append_assoc)
qed

lemma for_each_fl_assign:
  assumes "m \<le> length L"
  shows "for_each (fl_assign_step
           (map (\<lambda>i. int (count_list (take (Suc i) (sort L)) (sort L ! i))) [0..<length L])
           (\<lambda>c. if c \<in> set L then Some (map int (positions_of L c)) else None))
           (enumerate 0 (take m (sort L))) (replicate (length L) 0)
         = Inr (map (\<lambda>k. int (fl L k)) [0..<m] @ replicate (length L - m) 0)"
  using assms
proof (induction m)
  case 0
  show ?case by simp
next
  case (Suc m)
  then have m: "m < length L" by simp
  then have tk: "take (Suc m) (sort L) = take m (sort L) @ [sort L ! m]"
    by (simp add: take_Suc_conv_app_nth)
  have len: "length (take m (sort L)) = m" using m by simp
  show ?case
    unfolding tk enumerate_append_eq for_each_append
    using Suc.IH m fl_assign_step_eq[OF m, of "map (\<lambda>k. int (fl L k)) [0..<m]"]
    by (simp add: len)
qed

lemma first_to_last_index_eq:
  "first_to_last_index L = Inr (map (\<lambda>k. int (fl L k)) [0..<length L])"
proof -
  have "for_each (fl_assign_step
           (map (\<lambda>i. int (count_list (take (Suc i) (sort L)) (sort L ! i))) [0..<length L])
           (\<lambda>c. if c \<in> set L then Some (map int (positions_of L c)) else None))
           (enumerate 0 (sort L)) (replicate (length L) 0)
         = Inr (map (\<lambda>k. int (fl L k)) [0..<length L])"
    using for_each_fl_assign[of "length L" L] by simp
  then show ?thesis
    unfolding first_to_last_index_def last_to_first_string_def Let_def
    by (simp add: for_each_rank_assign[of L "length L"]
        for_each_rank_assign[of "sort L" "length L"] fold_pos_lists)
qed

subsection \<open>Totality and the transform\<close>

lemma for_each_total:
  "(\<And>x s. x \<in> set xs \<Longrightarrow> \<exists>s'. body x s = Inr s') \<Longrightarrow> \<exists>s'. for_each body xs s = Inr s'"
proof (induction xs arbitrary: s)
  case Nil
  show ?case by simp
next
  case (Cons x xs)
  obtain s1 where "body x s = Inr s1" using Cons.prems[of x s] by auto
  moreover obtain s2 where "for_each body xs s1 = Inr s2"
    using Cons.IH[of s1] Cons.prems by auto
  ultimately show ?case by simp
qed

lemma entropy_step_total:
  assumes "0 < cnt" and "0 < len"
  shows "\<exists>h. entropy_step len cnt e = Inr h"
  using assms by (simp add: entropy_step_def py_truediv_def py_log2_def)

lemma calculate_entropy_total: "\<exists>h. calculate_entropy s = Inr h"
proof (cases "s = []")
  case True
  then show ?thesis by (simp add: calculate_entropy_def)
next
  case False
  have "\<exists>h. entropy_step (length s) x e = Inr h" if "x \<in> set (counter_values s)" for x e
  proof -
    from that obtain c where "c \<in> set s" "x = int (count_list s c)"
      by (auto simp: counter_values_def)
    then have "0 < x" by (simp add: count_list_0_iff zero_less_iff_neq_zero del: neq0_conv)
    then show ?thesis using False by (intro entropy_step_total) simp_all
  qed
  then show ?thesis
    using False by (simp add: calculate_entropy_def for_each_total)
qed

lemma analyze_compression_total_aux: "\<exists>r. analyze_compression S = Inr r"
proof -
  obtain h1 where h1: "calculate_entropy S = Inr h1"
    using calculate_entropy_total by blast
  obtain h2 where h2: "calculate_entropy (map last (sort (cyclic_rotations S))) = Inr h2"
    using calculate_entropy_total by blast
  show ?thesis
    by (simp add: analyze_compression_def bwt_eq h1 h2 Let_def py_truediv_def)
qed

lemma bwt_Nil: "bwt [] = Inr [sentinel]"
  by (simp add: bwt_eq cyclic_rotations_def)

lemma analyze_compression_Nil:
  "analyze_compression [] =
     Inr \<lparr> original_length = 0, bwt_length = 1, original_runs = 0, bwt_runs = 1,
           run_reduction_ratio = 0, original_entropy = 0, bwt_entropy = 0,
           entropy_reduction = 0 \<rparr>"
  by (simp add: analyze_compression_def bwt_Nil count_runs_def calculate_entropy_def
      counter_values_def entropy_step_def py_truediv_def py_log2_def)

text \<open>
  Claim C10: \<open>analyze_compression\<close> returns a record on every input, the empty
  string included: the run-ratio division is guarded, and for empty input
  \<open>original_runs = 0\<close>, \<open>bwt_runs = 1\<close> (the transform of the empty string is
  the sentinel alone) and \<open>run_reduction_ratio = 0\<close>; no division by zero is raised.
\<close>
theorem analyze_compression_total:
  "(\<exists>r. analyze_compression S = Inr r) \<and>
   (\<exists>r. analyze_compression [] = Inr r \<and> original_runs r = 0 \<and> bwt_runs r = 1
        \<and> run_reduction_ratio r = 0)"
  using analyze_compression_total_aux[of S] by (simp add: analyze_compression_Nil)

text \<open>
  Claim C9: \<open>bw_matching\<close> terminates on every input, whatever the first column,
  last column, pattern and LF array are: its loop returns a value or an error. Each
  iteration either returns or shortens the pattern by one symbol, which is the
  induction of \<open>bw_loop_total\<close>.
\<close>
theorem bw_matching_terminates: "\<exists>r. bw_matching firstcol_str lastcol_str pattern last_to_first_idx = Some r"
  unfolding bw_matching_def by (rule bw_loop_total)

lemma length_cyclic_rotations: "length (cyclic_rotations S) = Suc (length S)"
  by (simp add: cyclic_rotations_rotate del: upt_Suc)

text \<open>
  Claim C7: searching with the empty pattern returns the full row-range size,
  \<open>bwa_search(S, "") = len(S) + 1\<close>, a value and neither an error nor zero. It
  holds for every \<open>S\<close>, so in particular for one without the sentinel.
\<close>
theorem bwa_search_empty_pattern: "bwa_search S [] = Some (Inr (int (length S) + 1))"
  by (simp add: bwa_search_def bwt_eq last_to_first_index_eq bw_matching_def Let_def
      bw_loop.simps[of _ _ _ _ "[]"] length_cyclic_rotations)

text \<open>
  Claim C4: for every string \<open>S\<close> the transform returns a string of length
  \<open>len(S) + 1\<close> that is a permutation of \<open>S\<close> with the sentinel appended:
  \<open>sorted(bwt(S)) = sorted(S + "$")\<close>.
\<close>
theorem bwt_permutation:
  "\<exists>L. bwt S = Inr L \<and> length L = length S + 1 \<and> sort L = sort (S @ [sentinel])"
proof -
  let ?L = "map last (sort (cyclic_rotations S))"
  have "mset (sort (S @ [sentinel])) = mset ?L"
    by (simp only: mset_bwt_column mset_sort)
  then have "sort ?L = sort (S @ [sentinel])"
    by (intro properties_for_sort) simp_all
  then show ?thesis
    using length_bwt_column[of S] by (simp add: bwt_eq del: upt_Suc)
qed





subsection \<open>The mappings, inversion errors and absent symbols\<close>

text \<open>
  Claim C3: for every string \<open>L\<close> both index functions return arrays of the length
  of \<open>L\<close> whose entries lie in \<open>[0, len(L))\<close>, and the two arrays are inverse
  permutations of each other: \<open>FL[LF[i]] = i\<close> and \<open>LF[FL[i]] = i\<close> for every
  position \<open>i\<close>.
\<close>
theorem lf_fl_mutually_inverse:
  "\<exists>LF FL. last_to_first_index L = Inr LF \<and> first_to_last_index L = Inr FL \<and>
     length LF = length L \<and> length FL = length L \<and>
     (\<forall>i<length L.
        0 \<le> LF ! i \<and> LF ! i < int (length L) \<and> 0 \<le> FL ! i \<and> FL ! i < int (length L) \<and>
        py_get FL (LF ! i) = Inr (int i) \<and> py_get LF (FL ! i) = Inr (int i))"
proof -
  let ?LF = "map (\<lambda>i. int (lf L i)) [0..<length L]"
  let ?FL = "map (\<lambda>k. int (fl L k)) [0..<length L]"
  have "0 \<le> ?LF ! i \<and> ?LF ! i < int (length L) \<and> 0 \<le> ?FL ! i \<and> ?FL ! i < int (length L) \<and>
        py_get ?FL (?LF ! i) = Inr (int i) \<and> py_get ?LF (?FL ! i) = Inr (int i)"
    if i: "i < length L" for i
    using i lf_less_length[OF i] fl_props(1,2)[OF i] fl_lf[OF i]
    by (simp add: py_get_nat)
  then show ?thesis
    by (intro exI[of _ ?LF] exI[of _ ?FL]) (simp add: last_to_first_index_eq first_to_last_index_eq)
qed

theorem lf_fl_mutually_inverse_witness:
  "\<exists>LF FL. last_to_first_index ''T$CGATAAG'' = Inr LF \<and> first_to_last_index ''T$CGATAAG'' = Inr FL \<and>
     (2::nat) < length ''T$CGATAAG'' \<and> LF ! 2 = 4 \<and> FL ! 4 = 2 \<and>
     py_get FL (LF ! 2) = Inr 2 \<and> py_get LF (FL ! 2) = Inr 2"
proof -
  obtain LF FL where *: "last_to_first_index ''T$CGATAAG'' = Inr LF"
      "first_to_last_index ''T$CGATAAG'' = Inr FL"
      "\<forall>i<length ''T$CGATAAG''. 
        0 \<le> LF ! i \<and> LF ! i < int (length ''T$CGATAAG'') \<and> 0 \<le> FL ! i \<and> FL ! i < int (length ''T$CGATAAG'') \<and>
        py_get FL (LF ! i) = Inr (int i) \<and> py_get LF (FL ! i) = Inr (int i)"
    using lf_fl_mutually_inverse[of "''T$CGATAAG''"] by blast
  have "last_to_first_index ''T$CGATAAG'' = Inr [7, 0, 4, 5, 1, 8, 2, 3, 6]"
    by code_simp
  moreover have "first_to_last_index ''T$CGATAAG'' = Inr [1, 4, 6, 7, 2, 3, 8, 0, 5]"
    by code_simp
  ultimately have "LF ! 2 = 4" "FL ! 4 = 2" using *(1,2) by simp_all
  moreover have "py_get FL (LF ! 2) = Inr 2 \<and> py_get LF (FL ! 2) = Inr 2"
    using *(3) by (simp add: All_less_Suc eval_nat_numeral)
  ultimately show ?thesis using *(1,2) by simp
qed

subsection \<open>Inversion never fails once the sentinel is found\<close>

lemma length_takeWhile_less:
  "x \<in> set xs \<Longrightarrow> \<not> P x \<Longrightarrow> length (takeWhile P xs) < length xs"
  by (induction xs) auto

lemma str_index_cases:
  "(c \<notin> set s \<and> str_index s c = Inl ValueError) \<or>
   (c \<in> set s \<and> (\<exists>j<length s. str_index s c = Inr (int j) \<and> s ! j = c))"
proof (cases "c \<in> set s")
  case True
  then have "length (takeWhile (\<lambda>x. x \<noteq> c) s) < length s"
    by (rule length_takeWhile_less) simp
  moreover from this have "s ! length (takeWhile (\<lambda>x. x \<noteq> c) s) = c"
    using nth_length_takeWhile[of "\<lambda>x. x \<noteq> c" s] by simp
  ultimately show ?thesis using True by (auto simp: str_index_def)
next
  case False
  then show ?thesis by (simp add: str_index_def)
qed

lemma invert_step_lf:
  assumes "j < length L"
  shows "invert_step L (map (\<lambda>i. int (lf L i)) [0..<length L]) u (out, int j)
           = Inr (out @ [L ! j], int (lf L j))"
  using assms by (simp add: invert_step_def py_get_nat)





subsection \<open>A symbol that the last column does not hold\<close>

lemma scan_positions_in_range:
  "\<forall>i\<in>set js. 0 \<le> i \<and> i < int (length L) \<Longrightarrow>
     scan_positions L c js = Inr (filter (\<lambda>i. L ! nat i = c) js)"
  by (induction js) (auto simp: py_get_def py_index_def)

lemma bw_loop_absent_symbol:
  assumes "c \<notin> set L" and "c \<in> set P"
    and "tp \<le> bt \<Longrightarrow> 0 \<le> tp \<and> bt < int (length L)"
  shows "bw_loop L (map (\<lambda>i. int (lf L i)) [0..<length L]) tp bt P = Some (Inr 0)"
  using assms(2,3)
proof (induction P arbitrary: tp bt rule: rev_induct)
  case Nil
  then show ?case by simp
next
  case (snoc x P)
  let ?LF = "map (\<lambda>i. int (lf L i)) [0..<length L]"
  show ?case
  proof (cases "tp \<le> bt")
    case False
    then show ?thesis by (subst bw_loop.simps) simp
  next
    case True
    with snoc.prems have rng: "0 \<le> tp" "bt < int (length L)" by simp_all
    let ?ps = "filter (\<lambda>i. L ! nat i = x) [tp..bt]"
    have scan: "scan_positions L x [tp..bt] = Inr ?ps"
      using rng by (intro scan_positions_in_range) auto
    show ?thesis
    proof (cases "?ps = []")
      case True
      then show ?thesis using \<open>tp \<le> bt\<close> scan
        by (subst bw_loop.simps) simp
    next
      case False
      then have "hd ?ps \<in> set ?ps" "last ?ps \<in> set ?ps"
        by (rule hd_in_set, rule last_in_set)
      then have h: "0 \<le> hd ?ps" "hd ?ps < int (length L)" "L ! nat (hd ?ps) = x"
        and l: "0 \<le> last ?ps" "last ?ps < int (length L)"
        using rng by auto
      have gh: "py_get ?LF (hd ?ps) = Inr (int (lf L (nat (hd ?ps))))"
        using h py_get_nat[of "nat (hd ?ps)" ?LF] by simp
      have gl: "py_get ?LF (last ?ps) = Inr (int (lf L (nat (last ?ps))))"
        using l py_get_nat[of "nat (last ?ps)" ?LF] by simp
      have "x \<in> set L" using h by (metis nth_mem nat_less_iff)
      then have "c \<in> set P" using snoc.prems(1) assms(1) by auto
      moreover have "0 \<le> int (lf L (nat (hd ?ps))) \<and> int (lf L (nat (last ?ps))) < int (length L)"
        using l lf_less_length[of "nat (last ?ps)" L] by simp
      ultimately have "bw_loop L ?LF (int (lf L (nat (hd ?ps)))) (int (lf L (nat (last ?ps)))) P
          = Some (Inr 0)"
        by (intro snoc.IH) simp_all
      then show ?thesis using \<open>tp \<le> bt\<close> scan False gh gl
        by (subst bw_loop.simps) (simp add: Let_def)
    qed
  qed
qed

text \<open>
  Claim C8 says that a pattern with a symbol that does not occur in \<open>S\<close> is counted
  0 times. The sentinel is such a symbol, and the code counts the pattern \<open>"$"\<close>
  once in \<open>"A"\<close>.
\<close>
theorem bwa_search_sentinel_pattern_counterexample:
  "sentinel \<notin> set ''A'' \<and> sentinel \<in> set ''$'' \<and> bwa_search ''A'' ''$'' = Some (Inr 1)"
  by (simp add: sentinel_def) code_simp

text \<open>
  Claim C8, amended: when the pattern holds a symbol other than the sentinel that does
  not occur in \<open>S\<close>, \<open>bwa_search\<close> returns 0.
\<close>
theorem bwa_search_absent_symbol:
  assumes "c \<in> set P" and "c \<notin> set S" and "c \<noteq> sentinel"
  shows "bwa_search S P = Some (Inr 0)"
proof -
  let ?L = "map last (sort (cyclic_rotations S))"
  have "set ?L = set_mset (mset (S @ [sentinel]))"
    by (simp only: mset_bwt_column[symmetric] set_mset_mset)
  then have "c \<notin> set ?L" using assms(2,3) by simp
  then have "bw_loop ?L (map (\<lambda>i. int (lf ?L i)) [0..<length ?L]) 0 (int (length ?L) - 1) P
      = Some (Inr 0)"
    using assms(1) by (intro bw_loop_absent_symbol) simp_all
  then show ?thesis
    by (simp add: bwa_search_def bwt_eq last_to_first_index_eq bw_matching_def Let_def)
qed

theorem bwa_search_absent_symbol_witness:
  "CHR ''X'' \<in> set ''XYZ'' \<and> CHR ''X'' \<notin> set ''ABCD'' \<and> CHR ''X'' \<noteq> sentinel \<and>
   bwa_search ''ABCD'' ''XYZ'' = Some (Inr 0)"
  using bwa_search_absent_symbol[of "CHR ''X''" "''XYZ''" "''ABCD''"]
  by (simp add: sentinel_def)

subsection \<open>Rotating right\<close>

lemma rotate1_rotate_right: "x \<noteq> [] \<Longrightarrow> rotate1 (rotate_right x) = x"
  by (simp add: rotate_right_def)

lemma rotate_right_rotate1: "x \<noteq> [] \<Longrightarrow> rotate_right (rotate1 x) = x"
  by (cases x) (simp_all add: rotate_right_def)

lemma length_rotate_right: "x \<noteq> [] \<Longrightarrow> length (rotate_right x) = length x"
  by (simp add: rotate_right_def)

lemma snoc_less_snoc:
  "length u = length v \<Longrightarrow> u @ [a] < v @ [a] \<longleftrightarrow> u < (v::'a::linorder list)"
  by (induction u v rule: list_induct2) auto

lemma last_funpow_rotate_right:
  "m < length x \<Longrightarrow> last ((rotate_right ^^ m) x) = rev x ! m"
proof (induction m arbitrary: x)
  case 0
  then show ?case by (cases x rule: rev_cases) simp_all
next
  case (Suc m)
  then obtain ys y where x: "x = ys @ [y]" by (cases x rule: rev_cases) auto
  with Suc.prems have m: "m < length ys" by simp
  have "(rotate_right ^^ Suc m) x = (rotate_right ^^ m) (rotate_right x)"
    by (simp add: funpow_swap1)
  also have "rotate_right x = y # ys" by (simp add: x rotate_right_def)
  finally have "last ((rotate_right ^^ Suc m) x) = rev (y # ys) ! m"
    using Suc.IH[of "y # ys"] m by simp
  also have "\<dots> = rev x ! Suc m"
    using m by (simp add: x nth_append)
  finally show ?case .
qed

subsection \<open>The sorted rotation table\<close>

lemma set_table:
  "set (table S) = (\<lambda>i. rotate i (S @ [sentinel])) ` {0..<Suc (length S)}"
  by (simp add: table_def cyclic_rotations_rotate del: upt_Suc)

lemma length_table: "length (table S) = Suc (length S)"
  by (simp add: table_def length_cyclic_rotations)

lemma length_column: "length (column S) = Suc (length S)"
  by (simp add: column_def length_table)

lemma bwt_column: "bwt S = Inr (column S)"
  by (simp add: bwt_eq column_def table_def)

lemma table_row_length: "x \<in> set (table S) \<Longrightarrow> length x = Suc (length S)"
  by (auto simp: set_table)

lemma table_row_nonempty: "x \<in> set (table S) \<Longrightarrow> x \<noteq> []"
  using table_row_length by fastforce

lemma table_rotate:
  assumes "x \<in> set (table S)"
  shows "rotate k x \<in> set (table S)"
proof -
  let ?T = "S @ [sentinel]"
  from assms obtain i where "x = rotate i ?T" by (auto simp: set_table)
  then have "rotate k x = rotate ((k + i) mod length ?T) ?T"
    using rotate_conv_mod[of "k + i" ?T] by (simp add: rotate_rotate)
  moreover have "(k + i) mod length ?T < Suc (length S)" by simp
  ultimately show ?thesis
    unfolding set_table by (metis atLeast0LessThan imageI lessThan_iff)
qed

lemma table_rotate1: "x \<in> set (table S) \<Longrightarrow> rotate1 x \<in> set (table S)"
  using table_rotate[of x S 1] by simp

lemma table_rotate_right:
  assumes "x \<in> set (table S)"
  shows "rotate_right x \<in> set (table S)"
proof -
  have ne: "x \<noteq> []" using assms by (rule table_row_nonempty)
  have "rotate (length x - 1) x \<in> set (table S)" using assms by (rule table_rotate)
  moreover have "rotate1 (rotate (length x - 1) x) = x"
    using ne by (metis One_nat_def Suc_pred length_greater_0_conv mod_self rotate_Suc rotate_id)
  ultimately show ?thesis
    using rotate_right_rotate1[of "rotate (length x - 1) x"] ne by auto
qed

lemma rotation_form:
  "i \<le> length S \<Longrightarrow> rotate i (S @ [c]) = drop i S @ c # take i S"
  by (simp add: rotate_drop_take)

lemma takeWhile_until: "c \<notin> set A \<Longrightarrow> takeWhile (\<lambda>x. x \<noteq> c) (A @ c # B) = A"
  by (induction A) auto

lemma takeWhile_rotation:
  assumes "c \<notin> set S" and "i \<le> length S"
  shows "length (takeWhile (\<lambda>x. x \<noteq> c) (rotate i (S @ [c]))) = length S - i"
proof -
  have "takeWhile (\<lambda>x. x \<noteq> c) (drop i S @ c # take i S) = drop i S"
    using assms(1) by (intro takeWhile_until) (auto dest: in_set_dropD)
  then show ?thesis using assms(2) by (simp add: rotation_form)
qed

lemma distinct_rotations:
  assumes "sentinel \<notin> set S"
  shows "distinct (cyclic_rotations S)"
proof -
  have "inj_on (\<lambda>i. rotate i (S @ [sentinel])) {0..<Suc (length S)}"
  proof (rule inj_onI)
    fix i j
    assume i: "i \<in> {0..<Suc (length S)}" and j: "j \<in> {0..<Suc (length S)}"
      and eq: "rotate i (S @ [sentinel]) = rotate j (S @ [sentinel])"
    have "length S - i = length S - j"
      using takeWhile_rotation[OF assms, of i] takeWhile_rotation[OF assms, of j] i j eq by simp
    then show "i = j" using i j by simp
  qed
  then show ?thesis
    by (simp add: cyclic_rotations_rotate distinct_map del: upt_Suc)
qed

lemma strict_sorted_table:
  "sentinel \<notin> set S \<Longrightarrow> sorted_wrt (<) (table S)"
  by (simp add: strict_sorted_iff table_def distinct_rotations)

lemma distinct_table: "sentinel \<notin> set S \<Longrightarrow> distinct (table S)"
  using strict_sorted_table strict_sorted_iff by blast

lemma sorted_table: "sorted (table S)"
  by (simp add: table_def)

subsection \<open>The first column\<close>

lemma hd_le_hd: "x \<noteq> [] \<Longrightarrow> y \<noteq> [] \<Longrightarrow> x \<le> y \<Longrightarrow> hd x \<le> hd (y::'a::linorder list)"
  by (cases x; cases y) auto

lemma first_column: "map hd (table S) = sort (column S)"
proof -
  let ?T = "S @ [sentinel]"
  have "sorted_wrt (\<lambda>x y. hd x \<le> hd y) (table S)"
    using sorted_table[of S]
    by (rule sorted_wrt_mono_rel[rotated]) (auto intro: hd_le_hd dest: table_row_nonempty)
  then have s: "sorted (map hd (table S))"
    by (simp add: sorted_map)
  have "map hd (cyclic_rotations S) = map (\<lambda>i. hd (rotate i ?T)) [0..<length ?T]"
    by (simp add: cyclic_rotations_rotate del: upt_Suc)
  then have "map hd (cyclic_rotations S) = ?T"
    by (simp only: map_hd_rotations)
  then have "mset (map hd (cyclic_rotations S)) = mset ?T"
    by (simp only:)
  moreover have "mset (map hd (table S)) = mset (map hd (cyclic_rotations S))"
    by (simp add: table_def)
  moreover have "mset (column S) = mset ?T"
    unfolding column_def table_def by (rule mset_bwt_column)
  ultimately have "mset (map hd (table S)) = mset (column S)"
    by (simp only:)
  then show ?thesis
    using s by (intro properties_for_sort[symmetric]) 
qed

subsection \<open>Rows of a strictly sorted list\<close>

lemma set_take_strict_sorted:
  assumes "sorted_wrt (<) (M::'a::linorder list)" and "i < length M"
  shows "set (take i M) = {z \<in> set M. z < M ! i}"
proof (intro set_eqI iffI)
  fix z assume "z \<in> set (take i M)"
  then obtain j where j: "j < i" "z = M ! j"
    using assms(2) by (auto simp: in_set_conv_nth)
  then have "M ! j < M ! i"
    using assms by (intro sorted_wrt_nth_less) auto
  then show "z \<in> {z \<in> set M. z < M ! i}"
    using j assms(2) by auto
next
  fix z assume "z \<in> {z \<in> set M. z < M ! i}"
  then obtain j where j: "j < length M" "z = M ! j" "M ! j < M ! i"
    by (auto simp: in_set_conv_nth)
  have "j < i"
  proof (rule ccontr)
    assume "\<not> j < i"
    then have "i \<le> j" by simp
    then have "M ! i \<le> M ! j"
      using assms(1) j(1) by (intro sorted_nth_mono strict_sorted_imp_sorted)
    with j(3) show False by simp
  qed
  then show "z \<in> set (take i M)"
    using j assms(2) by (auto simp: in_set_conv_nth)
qed

lemma nth_card_less:
  assumes "sorted_wrt (<) (M::'a::linorder list)" and "x \<in> set M"
  shows "M ! card {y \<in> set M. y < x} = x"
proof -
  from assms(2) obtain k where k: "k < length M" "x = M ! k"
    by (auto simp: in_set_conv_nth)
  have "distinct (take k M)"
    using assms(1) by (simp add: strict_sorted_iff)
  then have "card (set (take k M)) = k"
    using k(1) by (simp add: distinct_card)
  then show ?thesis
    using set_take_strict_sorted[OF assms(1) k(1)] k(2) by simp
qed

subsection \<open>The LF mapping moves a row to its right rotation\<close>

lemma card_heads_below:
  assumes "sentinel \<notin> set S"
  shows "card {y \<in> set (table S). hd y < c} = less_count (column S) c"
proof -
  have "less_count (column S) c = less_count (map hd (table S)) c"
    by (simp add: first_column less_count_sort)
  also have "\<dots> = length (filter (\<lambda>y. hd y < c) (table S))"
    by (simp add: less_count_def filter_map comp_def)
  also have "\<dots> = card ({y. hd y < c} \<inter> set (table S))"
    using assms by (intro distinct_length_filter distinct_table)
  also have "{y. hd y < c} \<inter> set (table S) = {y \<in> set (table S). hd y < c}"
    by auto
  finally show ?thesis by simp
qed

lemma card_rows_above:
  assumes "sentinel \<notin> set S" and "i < Suc (length S)"
  shows "card {z \<in> set (table S). z < table S ! i \<and> last z = c} = count_list (take i (column S)) c"
proof -
  let ?M = "table S"
  have i: "i < length ?M" using assms(2) by (simp add: length_table)
  have "count_list (take i (column S)) c = length (filter (\<lambda>z. last z = c) (take i ?M))"
    by (simp add: column_def count_list_filter_eq take_map filter_map comp_def)
  also have "\<dots> = card ({z. last z = c} \<inter> set (take i ?M))"
    using assms(1) by (intro distinct_length_filter distinct_take distinct_table)
  also have "{z. last z = c} \<inter> set (take i ?M) = {z \<in> set ?M. z < ?M ! i \<and> last z = c}"
    using set_take_strict_sorted[OF strict_sorted_table[OF assms(1)] i] by auto
  finally show ?thesis by simp
qed

lemma rotate1_image_rows:
  assumes x: "x \<in> set (table S)"
  shows "rotate1 ` {y \<in> set (table S). hd y = last x \<and> tl y < butlast x}
           = {z \<in> set (table S). z < x \<and> last z = last x}"
    (is "rotate1 ` ?B = ?C")
proof -
  have nx: "x \<noteq> []" using x by (rule table_row_nonempty)
  have xx: "butlast x @ [last x] = x" using nx by (rule append_butlast_last_id)
  have "rotate1 y \<in> ?C" if "y \<in> ?B" for y
  proof -
    from that have y: "y \<in> set (table S)" and hd: "hd y = last x" and tl: "tl y < butlast x"
      by simp_all
    have ny: "y \<noteq> []" using y by (rule table_row_nonempty)
    have r: "rotate1 y = tl y @ [last x]"
      using ny hd by (simp add: rotate1_hd_tl)
    have "length (tl y) = length (butlast x)"
      using table_row_length[OF y] table_row_length[OF x] by simp
    then have "tl y @ [last x] < butlast x @ [last x]"
      using tl by (simp only: snoc_less_snoc)
    then have "rotate1 y < x"
      by (simp only: r xx)
    moreover have "rotate1 y \<in> set (table S)" using y by (rule table_rotate1)
    moreover have "last (rotate1 y) = last x" by (simp only: r last_snoc)
    ultimately show ?thesis by simp
  qed
  moreover have "z \<in> rotate1 ` ?B" if "z \<in> ?C" for z
  proof -
    from that have z: "z \<in> set (table S)" and lt: "z < x" and last: "last z = last x"
      by simp_all
    have nz: "z \<noteq> []" using z by (rule table_row_nonempty)
    have "butlast z @ [last z] = z" using nz by (rule append_butlast_last_id)
    then have zz: "butlast z @ [last x] = z" by (simp only: last)
    have "length (butlast z) = length (butlast x)"
      using table_row_length[OF z] table_row_length[OF x] by simp
    moreover have "butlast z @ [last x] < butlast x @ [last x]"
      using lt by (simp only: zz xx)
    ultimately have b: "butlast z < butlast x"
      by (simp only: snoc_less_snoc)
    have "rotate_right z \<in> set (table S)" using z by (rule table_rotate_right)
    moreover have "hd (rotate_right z) = last x" "tl (rotate_right z) = butlast z"
      by (simp_all add: rotate_right_def last)
    ultimately have "rotate_right z \<in> ?B" using b by simp
    moreover have "z = rotate1 (rotate_right z)"
      using rotate1_rotate_right[OF nz] by (rule sym)
    ultimately show ?thesis by (rule rev_image_eqI)
  qed
  ultimately show ?thesis by blast
qed

lemma lf_row:
  assumes S: "sentinel \<notin> set S" and i: "i < Suc (length S)"
  shows "table S ! lf (column S) i = rotate_right (table S ! i)"
proof -
  let ?M = "table S"
  let ?x = "?M ! i"
  let ?c = "last ?x" and ?b = "butlast ?x"
  let ?A = "{y \<in> set ?M. hd y < ?c}"
  let ?B = "{y \<in> set ?M. hd y = ?c \<and> tl y < ?b}"
  have iM: "i < length ?M" using i by (simp add: length_table)
  then have x: "?x \<in> set ?M" by simp
  have c: "column S ! i = ?c" using iM by (simp add: column_def)
  have "{y \<in> set ?M. y < rotate_right ?x} = ?A \<union> ?B"
  proof (intro set_eqI)
    fix y
    show "y \<in> {y \<in> set ?M. y < rotate_right ?x} \<longleftrightarrow> y \<in> ?A \<union> ?B"
    proof (cases "y \<in> set ?M")
      case True
      then have "y \<noteq> []" by (rule table_row_nonempty)
      then obtain a u where "y = a # u" by (cases y) auto
      then show ?thesis using True by (auto simp: rotate_right_def)
    next
      case False
      then show ?thesis by simp
    qed
  qed
  moreover have "?A \<inter> ?B = {}" by auto
  moreover have "finite ?A" "finite ?B" by simp_all
  ultimately have "card {y \<in> set ?M. y < rotate_right ?x} = card ?A + card ?B"
    by (simp add: card_Un_disjoint)
  moreover have "card ?A = less_count (column S) ?c"
    using S by (rule card_heads_below)
  moreover have "card ?B = card (rotate1 ` ?B)"
    by (intro card_image[symmetric] inj_on_subset[OF inj_rotate1]) simp
  moreover have "rotate1 ` ?B = {z \<in> set ?M. z < ?x \<and> last z = ?c}"
    using x by (rule rotate1_image_rows)
  moreover have "card {z \<in> set ?M. z < ?x \<and> last z = ?c} = occ_before (column S) i"
    using card_rows_above[OF S i, of ?c] c by (simp add: occ_before_def)
  ultimately have "card {y \<in> set ?M. y < rotate_right ?x} = lf (column S) i"
    using c by (simp add: lf_def)
  moreover have "?M ! card {y \<in> set ?M. y < rotate_right ?x} = rotate_right ?x"
    using S x by (intro nth_card_less strict_sorted_table table_rotate_right)
  ultimately show ?thesis by simp
qed

subsection \<open>Walking the LF mapping from the sentinel row\<close>

lemma column_nth: "j < Suc (length S) \<Longrightarrow> column S ! j = last (table S ! j)"
  by (simp add: column_def length_table)

lemma invert_walk:
  assumes S: "sentinel \<notin> set S" and j: "j < Suc (length S)"
  shows "\<exists>j'. for_each (invert_step (column S)
                  (map (\<lambda>i. int (lf (column S) i)) [0..<length (column S)])) us (out, int j)
              = Inr (out @ map (\<lambda>m. last ((rotate_right ^^ m) (table S ! j))) [0..<length us], int j')"
  using j
proof (induction us arbitrary: out j)
  case Nil
  show ?case by simp
next
  case (Cons u us)
  let ?L = "column S"
  let ?LF = "map (\<lambda>i. int (lf ?L i)) [0..<length ?L]"
  let ?x = "table S ! j"
  have jL: "j < length ?L" using Cons.prems by (simp add: length_column)
  have step: "invert_step ?L ?LF u (out, int j) = Inr (out @ [last ?x], int (lf ?L j))"
    using invert_step_lf[OF jL] Cons.prems by (simp add: column_nth)
  have lfj: "lf ?L j < Suc (length S)"
    using lf_less_length[OF jL] by (simp add: length_column)
  have row: "table S ! lf ?L j = rotate_right ?x"
    using S Cons.prems by (rule lf_row)
  obtain j' where "for_each (invert_step ?L ?LF) us (out @ [last ?x], int (lf ?L j))
      = Inr ((out @ [last ?x]) @ map (\<lambda>m. last ((rotate_right ^^ m) (rotate_right ?x))) [0..<length us], int j')"
    using Cons.IH[OF lfj, of "out @ [last ?x]"] row by auto
  moreover have "map (\<lambda>m. last ((rotate_right ^^ m) ?x)) [0..<length (u # us)]
      = last ?x # map (\<lambda>m. last ((rotate_right ^^ m) (rotate_right ?x))) [0..<length us]"
    by (simp add: map_upt_Suc funpow_swap1 del: upt_Suc)
  ultimately show ?case
    using step by simp
qed

lemma sentinel_row:
  assumes S: "sentinel \<notin> set S" and j: "j < Suc (length S)" and c: "column S ! j = sentinel"
  shows "table S ! j = S @ [sentinel]"
proof -
  have "table S ! j \<in> set (table S)" using j by (simp add: length_table)
  then obtain i where "i < Suc (length S)" and r: "table S ! j = rotate i (S @ [sentinel])"
    by (auto simp: set_table)
  then have i: "i \<le> length S" by simp
  with r have row: "table S ! j = drop i S @ sentinel # take i S"
    by (simp add: rotation_form)
  have "take i S = []"
  proof (rule ccontr)
    assume ne: "take i S \<noteq> []"
    then have "last (table S ! j) = last (take i S)" by (simp add: row)
    also have "\<dots> \<in> set S" using ne by (meson in_set_takeD last_in_set)
    finally show False using S c j by (simp add: column_nth)
  qed
  then have "drop i S = S" using i by auto
  then show ?thesis using \<open>take i S = []\<close> row by simp
qed

lemma rstrip_snoc: "c \<notin> set S \<Longrightarrow> rstrip (S @ [c]) c = S"
proof -
  assume "c \<notin> set S"
  then have "dropWhile (\<lambda>x. x = c) (rev S) = rev S"
    by (cases "rev S") auto
  then show ?thesis by (simp add: rstrip_def)
qed

lemma set_column: "set (column S) = insert sentinel (set S)"
proof -
  have "mset (column S) = mset (S @ [sentinel])"
    unfolding column_def table_def by (rule mset_bwt_column)
  then have "set (column S) = set (S @ [sentinel])" by (rule mset_eq_setD)
  then show ?thesis by simp
qed

text \<open>
  Claim C1: for every string \<open>S\<close> without the sentinel, the transform returns a
  string and inverting that string gives \<open>S\<close> back:
  \<open>invert_bwt(bwt(S)) = S\<close>.
\<close>
theorem bwt_round_trip:
  assumes "sentinel \<notin> set S"
  shows "\<exists>L. bwt S = Inr L \<and> invert_bwt L = Inr S"
proof -
  let ?L = "column S" and ?T = "S @ [sentinel]"
  let ?LF = "map (\<lambda>i. int (lf ?L i)) [0..<length ?L]"
  have "sentinel \<in> set ?L" by (simp add: set_column)
  then obtain j where j: "j < length ?L" "str_index ?L sentinel = Inr (int j)" "?L ! j = sentinel"
    using str_index_cases[of sentinel ?L] by auto
  then have jS: "j < Suc (length S)" by (simp add: length_column)
  have row: "table S ! j = ?T" using assms jS j(3) by (rule sentinel_row)
  have out: "map (\<lambda>m. last ((rotate_right ^^ m) ?T)) [0..<length ?T] = rev ?T"
  proof -
    have "map (\<lambda>m. last ((rotate_right ^^ m) ?T)) [0..<length ?T]
        = map (\<lambda>m. rev ?T ! m) [0..<length ?T]"
      by (rule map_cong[OF refl], rule last_funpow_rotate_right) auto
    also have "\<dots> = map (\<lambda>m. rev ?T ! m) [0..<length (rev ?T)]"
      by simp
    also have "\<dots> = rev ?T"
      by (rule map_nth)
    finally show ?thesis .
  qed
  have len: "length [0..<length ?L] = length ?T" by (simp add: length_column)
  obtain j' where "for_each (invert_step ?L ?LF) [0..<length ?L] ([], int j)
      = Inr ([] @ map (\<lambda>m. last ((rotate_right ^^ m) ?T)) [0..<length [0..<length ?L]], int j')"
    using invert_walk[OF assms jS, of "[0..<length ?L]" "[]"] row by auto
  then have walk: "for_each (invert_step ?L ?LF) [0..<length ?L] ([], int j) = Inr (rev ?T, int j')"
    unfolding len out append_Nil .
  have "invert_bwt ?L = Inr (rstrip ?T sentinel)"
    using j(2) walk by (simp add: invert_bwt_def last_to_first_index_eq Let_def del: upt_Suc)
  then show ?thesis
    using assms by (simp add: bwt_column rstrip_snoc)
qed

theorem bwt_round_trip_witness:
  "sentinel \<notin> set ''ACAGTGAT'' \<and> bwt ''ACAGTGAT'' = Inr ''T$CGATAAG''
     \<and> invert_bwt ''T$CGATAAG'' = Inr ''ACAGTGAT''"
proof -
  have s: "sentinel \<notin> set ''ACAGTGAT''" by (simp add: sentinel_def)
  have b: "bwt ''ACAGTGAT'' = Inr ''T$CGATAAG''" by code_simp
  from bwt_round_trip[OF s] b s show ?thesis by simp
qed

subsection \<open>Rows that begin with a pattern\<close>

lemma table_row_sentinel: "x \<in> set (table S) \<Longrightarrow> sentinel \<in> set x"
  by (auto simp: set_table)

lemma table_row_index:
  assumes "x \<in> set (table S)"
  obtains r where "r < Suc (length S)" and "table S ! r = x"
  using assms by (auto simp: in_set_conv_nth length_table)

lemma prefix_butlast_strict: "prefix Q x \<Longrightarrow> Q \<noteq> x \<Longrightarrow> prefix Q (butlast x)"
  by (auto simp: prefix_def butlast_append)

lemma rows_Cons:
  assumes S: "sentinel \<notin> set S" and Q: "sentinel \<notin> set Q"
  shows "rows S (c # Q) = lf (column S) ` {r \<in> rows S Q. column S ! r = c}"
proof (intro set_eqI iffI)
  fix j assume "j \<in> rows S (c # Q)"
  then have j: "j < Suc (length S)" and pre: "prefix (c # Q) (table S ! j)"
    by (simp_all add: rows_def)
  let ?x = "table S ! j"
  have x: "?x \<in> set (table S)" using j by (simp add: length_table)
  from pre obtain zs where xs: "?x = c # Q @ zs" by (auto simp: prefix_def)
  have "rotate1 ?x \<in> set (table S)" using x by (rule table_rotate1)
  then obtain r where r: "r < Suc (length S)" "table S ! r = rotate1 ?x"
    by (rule table_row_index)
  have rot: "rotate1 ?x = Q @ zs @ [c]" by (simp add: xs)
  have "prefix Q (table S ! r)" by (simp add: r(2) rot)
  moreover have "column S ! r = c" using r by (simp add: column_nth rot)
  ultimately have mem: "r \<in> {r \<in> rows S Q. column S ! r = c}"
    using r(1) by (simp add: rows_def)
  have "table S ! lf (column S) r = rotate_right (rotate1 ?x)"
    using lf_row[OF S r(1)] r(2) by simp
  also have "\<dots> = ?x" by (rule rotate_right_rotate1) (simp add: xs)
  finally have "table S ! lf (column S) r = table S ! j" .
  moreover have "lf (column S) r < length (table S)"
    using lf_less_length[of r "column S"] r(1) by (simp add: length_column length_table)
  ultimately have "lf (column S) r = j"
    using distinct_table[OF S] j by (simp add: nth_eq_iff_index_eq length_table)
  then show "j \<in> lf (column S) ` {r \<in> rows S Q. column S ! r = c}"
    using mem by blast
next
  fix j assume "j \<in> lf (column S) ` {r \<in> rows S Q. column S ! r = c}"
  then obtain r where r: "r < Suc (length S)" "prefix Q (table S ! r)" "column S ! r = c"
    and jr: "j = lf (column S) r"
    by (auto simp: rows_def)
  let ?x = "table S ! r"
  have x: "?x \<in> set (table S)" using r(1) by (simp add: length_table)
  then have "sentinel \<in> set ?x" by (rule table_row_sentinel)
  then have "Q \<noteq> ?x" using Q by auto
  then have "prefix Q (butlast ?x)" using r(2) by (intro prefix_butlast_strict)
  moreover have "table S ! j = c # butlast ?x"
    using lf_row[OF S r(1)] r(1,3) by (simp add: jr rotate_right_def column_nth)
  moreover have "j < Suc (length S)"
    using lf_less_length[of r "column S"] r(1) by (simp add: jr length_column)
  ultimately show "j \<in> rows S (c # Q)"
    by (simp add: rows_def)
qed

lemma rows_append_empty:
  assumes "rows S Q = {}"
  shows "rows S (X @ Q) = {}"
proof (rule ccontr)
  assume "rows S (X @ Q) \<noteq> {}"
  then obtain j where j: "j < Suc (length S)" "prefix (X @ Q) (table S ! j)"
    by (auto simp: rows_def)
  then obtain zs where xs: "table S ! j = X @ Q @ zs" by (auto simp: prefix_def)
  have "table S ! j \<in> set (table S)" using j(1) by (simp add: length_table)
  then have "rotate (length X) (table S ! j) \<in> set (table S)" by (rule table_rotate)
  moreover have "rotate (length X) (table S ! j) = (Q @ zs) @ X"
    unfolding xs by (rule rotate_append)
  ultimately obtain r where "r < Suc (length S)" "table S ! r = (Q @ zs) @ X"
    by (metis table_row_index)
  then have "r \<in> rows S Q" by (simp add: rows_def)
  with assms show False by simp
qed

subsection \<open>Occurrence counts along an interval of the last column\<close>

lemma count_take_interval:
  assumes "a \<le> e" and "e \<le> length L"
  shows "count_list (take e L) c = count_list (take a L) c + length (filter (\<lambda>r. L ! r = c) [a..<e])"
proof -
  have "[0..<e] = [0..<a] @ [a..<e]"
    using assms(1) by (metis le_add_diff_inverse upt_add_eq_append zero_le)
  then have "length (filter (\<lambda>r. L ! r = c) [0..<e])
      = length (filter (\<lambda>r. L ! r = c) [0..<a]) + length (filter (\<lambda>r. L ! r = c) [a..<e])"
    by simp
  then show ?thesis
    using assms by (simp add: length_positions_upto)
qed

lemma count_image_interval:
  assumes "a \<le> e" and "e \<le> length L"
  shows "(\<lambda>r. count_list (take r L) c) ` {r. a \<le> r \<and> r < e \<and> L ! r = c}
           = {count_list (take a L) c ..< count_list (take e L) c}"
  using assms
proof (induction e rule: dec_induct)
  case base
  show ?case by simp
next
  case (step e)
  let ?g = "\<lambda>r. count_list (take r L) c"
  have e: "e < length L" using step.prems by simp
  have mono: "?g a \<le> ?g e"
    using count_take_interval[of a e L c] step.hyps(1) e by simp
  have IH: "?g ` {r. a \<le> r \<and> r < e \<and> L ! r = c} = {?g a ..< ?g e}"
    using step.IH e by simp
  show ?case
  proof (cases "L ! e = c")
    case True
    then have "{r. a \<le> r \<and> r < Suc e \<and> L ! r = c} = insert e {r. a \<le> r \<and> r < e \<and> L ! r = c}"
      using step.hyps(1) by (auto simp: less_Suc_eq)
    moreover have "?g (Suc e) = Suc (?g e)"
      using e True by (simp add: take_Suc_conv_app_nth)
    ultimately show ?thesis
      using IH mono by (auto simp: atLeastLessThanSuc)
  next
    case False
    then have "{r. a \<le> r \<and> r < Suc e \<and> L ! r = c} = {r. a \<le> r \<and> r < e \<and> L ! r = c}"
      by (auto simp: less_Suc_eq)
    moreover have "?g (Suc e) = ?g e"
      using e False by (simp add: take_Suc_conv_app_nth)
    ultimately show ?thesis
      using IH by simp
  qed
qed

lemma hd_positions_count:
  assumes ne: "filter (\<lambda>r. L ! r = c) [a..<e] \<noteq> []" and e: "e \<le> length L"
  shows "count_list (take (hd (filter (\<lambda>r. L ! r = c) [a..<e])) L) c = count_list (take a L) c"
proof -
  let ?P = "\<lambda>r. L ! r = c"
  let ?h = "hd (filter ?P [a..<e])"
  have "?h \<in> set (filter ?P [a..<e])" using ne by (rule hd_in_set)
  then have h: "a \<le> ?h" "?h < e" by simp_all
  have "[a..<e] = [a..<?h] @ [?h..<e]"
    using h by (metis le_add_diff_inverse less_imp_le_nat upt_add_eq_append)
  then have split: "filter ?P [a..<e] = filter ?P [a..<?h] @ filter ?P [?h..<e]"
    by (metis filter_append)
  have "filter ?P [a..<?h] = []"
  proof (rule ccontr)
    assume n: "filter ?P [a..<?h] \<noteq> []"
    then have "hd (filter ?P [a..<?h] @ filter ?P [?h..<e]) = hd (filter ?P [a..<?h])" by simp
    then have "?h = hd (filter ?P [a..<?h])" using split by simp
    moreover have "hd (filter ?P [a..<?h]) \<in> set (filter ?P [a..<?h])" using n by (rule hd_in_set)
    ultimately have "?h \<in> set (filter ?P [a..<?h])" by simp
    then show False by simp
  qed
  then show ?thesis
    using count_take_interval[of a ?h L c] h e by simp
qed

lemma last_positions_count:
  assumes ne: "filter (\<lambda>r. L ! r = c) [a..<e] \<noteq> []" and e: "e \<le> length L"
  shows "Suc (count_list (take (last (filter (\<lambda>r. L ! r = c) [a..<e])) L) c) = count_list (take e L) c"
proof -
  let ?P = "\<lambda>r. L ! r = c"
  let ?l = "last (filter ?P [a..<e])"
  have "?l \<in> set (filter ?P [a..<e])" using ne by (rule last_in_set)
  then have l: "a \<le> ?l" "?l < e" "L ! ?l = c" by simp_all
  have "[a..<e] = [a..<Suc ?l] @ [Suc ?l..<e]"
    using l by (metis Suc_leI le_SucI le_add_diff_inverse upt_add_eq_append)
  then have split: "filter ?P [a..<e] = filter ?P [a..<Suc ?l] @ filter ?P [Suc ?l..<e]"
    by (metis filter_append)
  have "filter ?P [Suc ?l..<e] = []"
  proof (rule ccontr)
    assume n: "filter ?P [Suc ?l..<e] \<noteq> []"
    then have "last (filter ?P [a..<Suc ?l] @ filter ?P [Suc ?l..<e]) = last (filter ?P [Suc ?l..<e])"
      by simp
    then have "?l = last (filter ?P [Suc ?l..<e])" using split by simp
    moreover have "last (filter ?P [Suc ?l..<e]) \<in> set (filter ?P [Suc ?l..<e])"
      using n by (rule last_in_set)
    ultimately have "?l \<in> set (filter ?P [Suc ?l..<e])" by simp
    then show False by simp
  qed
  then have "count_list (take e L) c = count_list (take (Suc ?l) L) c"
    using count_take_interval[of "Suc ?l" e L c] l e by simp
  also have "\<dots> = Suc (count_list (take ?l L) c)"
    using l e by (simp add: take_Suc_conv_app_nth)
  finally show ?thesis by simp
qed

subsection \<open>The search loop keeps the rows that begin with the consumed suffix\<close>

lemma upto_eq_map_int: "0 \<le> a \<Longrightarrow> [a..b] = map int [nat a..<nat (b + 1)]"
  by (rule nth_equalityI) (auto simp: nat_diff_distrib)

lemma card_int_interval:
  assumes "0 \<le> tp"
  shows "int (card {j::nat. tp \<le> int j \<and> int j \<le> bt}) = (if tp \<le> bt then bt - tp + 1 else 0)"
proof (cases "tp \<le> bt")
  case True
  have "{j::nat. tp \<le> int j \<and> int j \<le> bt} = {nat tp..nat bt}"
    using assms True by auto
  then show ?thesis using assms True by simp
next
  case False
  then have "{j::nat. tp \<le> int j \<and> int j \<le> bt} = {}" by auto
  then have "card {j::nat. tp \<le> int j \<and> int j \<le> bt} = 0" by (simp only: card.empty)
  then show ?thesis using False by (simp only: if_False of_nat_0)
qed

lemma scan_column:
  assumes "0 \<le> tp" and "bt < int (length L)"
  shows "scan_positions L c [tp..bt] = Inr (map int (filter (\<lambda>r. L ! r = c) [nat tp..<nat (bt + 1)]))"
proof -
  have "scan_positions L c [tp..bt] = Inr (filter (\<lambda>i. L ! nat i = c) [tp..bt])"
    using assms by (intro scan_positions_in_range) auto
  also have "filter (\<lambda>i. L ! nat i = c) [tp..bt]
      = map int (filter (\<lambda>r. L ! r = c) [nat tp..<nat (bt + 1)])"
    using assms(1) by (simp add: upto_eq_map_int filter_map comp_def)
  finally show ?thesis .
qed

lemma nat_interval_iff:
  "0 \<le> tp \<Longrightarrow> (nat tp \<le> r \<and> r < nat (bt + 1)) \<longleftrightarrow> (tp \<le> int r \<and> int r \<le> bt)"
  by linarith

lemma int_interval_set: "{j. int A \<le> int j \<and> int j \<le> int B} = {A..<Suc B}"
  by auto

lemma rows_step_interval:
  fixes c :: char
  assumes S: "sentinel \<notin> set S" and Q: "sentinel \<notin> set Q"
    and inv: "rows S Q = {j. tp \<le> int j \<and> int j \<le> bt}"
    and rng: "0 \<le> tp" "tp \<le> bt" "bt < int (Suc (length S))"
  defines "qs \<equiv> filter (\<lambda>r. column S ! r = c) [nat tp..<nat (bt + 1)]"
  shows "qs = [] \<Longrightarrow> rows S (c # Q) = {}"
    and "qs \<noteq> [] \<Longrightarrow> rows S (c # Q)
           = {j. int (lf (column S) (hd qs)) \<le> int j \<and> int j \<le> int (lf (column S) (last qs))}"
    and "qs \<noteq> [] \<Longrightarrow> last qs < Suc (length S)"
proof -
  let ?L = "column S"
  let ?a = "nat tp" and ?e = "nat (bt + 1)"
  let ?g = "\<lambda>r. count_list (take r ?L) c"
  have ae: "?a \<le> ?e" "?e \<le> length ?L"
    using rng by (simp_all add: length_column)
  have "r \<in> rows S Q \<longleftrightarrow> ?a \<le> r \<and> r < ?e" for r
    unfolding inv using nat_interval_iff[OF rng(1), of r bt] by simp
  then have sel: "{r \<in> rows S Q. ?L ! r = c} = {r. ?a \<le> r \<and> r < ?e \<and> ?L ! r = c}"
    by (simp only: conj_assoc)
  have "lf ?L ` {r. ?a \<le> r \<and> r < ?e \<and> ?L ! r = c}
      = (\<lambda>r. less_count ?L c + ?g r) ` {r. ?a \<le> r \<and> r < ?e \<and> ?L ! r = c}"
    by (rule image_cong) (auto simp: lf_def occ_before_def)
  also have "\<dots> = (\<lambda>v. less_count ?L c + v) ` (?g ` {r. ?a \<le> r \<and> r < ?e \<and> ?L ! r = c})"
    by (simp add: image_image)
  also have "\<dots> = (\<lambda>v. less_count ?L c + v) ` {?g ?a ..< ?g ?e}"
    using count_image_interval[OF ae] by simp
  finally have img: "rows S (c # Q) = (\<lambda>v. less_count ?L c + v) ` {?g ?a ..< ?g ?e}"
    using rows_Cons[OF S Q, of c] sel by simp
  have len: "?g ?e = ?g ?a + length qs"
    using count_take_interval[OF ae, of c] by (simp add: qs_def)
  show "rows S (c # Q) = {}" if "qs = []"
    using that img len by simp
  show "last qs < Suc (length S)" if "qs \<noteq> []"
  proof -
    have "last qs \<in> set qs" using that by (rule last_in_set)
    then show ?thesis using ae(2) by (simp add: qs_def length_column)
  qed
  show "rows S (c # Q)
      = {j. int (lf ?L (hd qs)) \<le> int j \<and> int j \<le> int (lf ?L (last qs))}" if "qs \<noteq> []"
  proof -
    have ne: "filter (\<lambda>r. ?L ! r = c) [?a..<?e] \<noteq> []" using that by (simp add: qs_def)
    have "hd qs \<in> set qs" "last qs \<in> set qs" using that by (rule hd_in_set, rule last_in_set)
    then have ch: "?L ! hd qs = c" and cl: "?L ! last qs = c" by (simp_all add: qs_def)
    have gh: "?g (hd qs) = ?g ?a"
      using hd_positions_count[OF ne ae(2)] by (simp add: qs_def)
    have gl: "Suc (?g (last qs)) = ?g ?e"
      using last_positions_count[OF ne ae(2)] by (simp add: qs_def)
    have "lf ?L (hd qs) = less_count ?L c + ?g ?a"
      using ch gh by (simp add: lf_def occ_before_def)
    moreover have "Suc (lf ?L (last qs)) = less_count ?L c + ?g ?e"
      using cl gl by (simp add: lf_def occ_before_def)
    moreover have "(\<lambda>v. less_count ?L c + v) ` {?g ?a ..< ?g ?e}
        = {less_count ?L c + ?g ?a ..< less_count ?L c + ?g ?e}"
      by (simp add: ac_simps)
    ultimately have "rows S (c # Q) = {lf ?L (hd qs) ..< Suc (lf ?L (last qs))}"
      using img by (simp only:)
    then show ?thesis by (simp only: int_interval_set)
  qed
qed

lemma bw_loop_rows:
  assumes S: "sentinel \<notin> set S" and PQ: "sentinel \<notin> set (P @ Q)"
    and inv: "rows S Q = {j. tp \<le> int j \<and> int j \<le> bt}"
    and rng: "0 \<le> tp" "bt < int (Suc (length S))"
  shows "bw_loop (column S) (map (\<lambda>i. int (lf (column S) i)) [0..<length (column S)]) tp bt P
           = Some (Inr (int (card (rows S (P @ Q)))))"
  using PQ inv rng
proof (induction P arbitrary: tp bt Q rule: rev_induct)
  case Nil
  show ?case
    using card_int_interval[OF Nil.prems(3), of bt]
    by (subst bw_loop.simps) (simp add: Nil.prems(2))
next
  case (snoc c P)
  let ?L = "column S"
  let ?LF = "map (\<lambda>i. int (lf ?L i)) [0..<length ?L]"
  have Q: "sentinel \<notin> set Q" and cQ: "sentinel \<notin> set (P @ c # Q)"
    using snoc.prems(1) by simp_all
  show ?case
  proof (cases "tp \<le> bt")
    case False
    then have "rows S Q = {}" using snoc.prems(2) by auto
    then have "rows S ((P @ [c]) @ Q) = {}" by (rule rows_append_empty)
    then show ?thesis using False by (subst bw_loop.simps) simp
  next
    case True
    define qs where "qs = filter (\<lambda>r. ?L ! r = c) [nat tp..<nat (bt + 1)]"
    have scan: "scan_positions ?L c [tp..bt] = Inr (map int qs)"
      unfolding qs_def using snoc.prems(3,4) by (intro scan_column) (simp_all add: length_column)
    note step = rows_step_interval[OF S Q snoc.prems(2,3) True snoc.prems(4), of c, folded qs_def]
    show ?thesis
    proof (cases "qs = []")
      case True
      then have "rows S (c # Q) = {}" by (rule step(1))
      then have "rows S (P @ c # Q) = {}" by (rule rows_append_empty)
      then show ?thesis using \<open>tp \<le> bt\<close> scan True
        by (subst bw_loop.simps) simp
    next
      case False
      have hl: "hd qs \<in> set qs" "last qs \<in> set qs" using False by (rule hd_in_set, rule last_in_set)
      have "nat (bt + 1) \<le> length ?L"
        using snoc.prems(4) by (simp add: length_column)
      moreover have "hd qs < nat (bt + 1)" "last qs < nat (bt + 1)"
        using hl by (simp_all add: qs_def)
      ultimately have "hd qs < length ?L" "last qs < length ?L"
        by simp_all
      then have gh: "py_get ?LF (hd (map int qs)) = Inr (int (lf ?L (hd qs)))"
        and gl: "py_get ?LF (last (map int qs)) = Inr (int (lf ?L (last qs)))"
        using False by (simp_all add: hd_map last_map py_get_nat)
      have "lf ?L (last qs) < Suc (length S)"
        using lf_less_length[of "last qs" ?L] step(3)[OF False] by (simp add: length_column)
      then have "bw_loop ?L ?LF (int (lf ?L (hd qs))) (int (lf ?L (last qs))) P
          = Some (Inr (int (card (rows S (P @ c # Q)))))"
        using step(2)[OF False] cQ by (intro snoc.IH) simp_all
      then show ?thesis using \<open>tp \<le> bt\<close> scan False gh gl
        by (subst bw_loop.simps) (simp add: Let_def)
    qed
  qed
qed

subsection \<open>Rows that begin with the pattern are the occurrences\<close>

lemma prefix_before_sentinel:
  assumes "c \<notin> set P"
  shows "prefix P (A @ c # B) \<longleftrightarrow> take (length P) A = P"
proof
  assume "prefix P (A @ c # B)"
  then have "prefix P A \<or> (\<exists>us. P = A @ us \<and> prefix us (c # B))"
    by (simp add: prefix_append)
  then have "prefix P A"
  proof
    assume "\<exists>us. P = A @ us \<and> prefix us (c # B)"
    then obtain us where us: "P = A @ us" "prefix us (c # B)" by blast
    then have "us = []" using assms by (cases us) auto
    then show "prefix P A" using us by simp
  qed
  then show "take (length P) A = P" by (auto simp: prefix_def)
next
  assume "take (length P) A = P"
  then have "prefix P A" by (metis take_is_prefix)
  then show "prefix P (A @ c # B)" by (rule prefix_prefix)
qed

lemma card_rows_occurrences:
  assumes S: "sentinel \<notin> set S" and P: "P \<noteq> []" "sentinel \<notin> set P"
  shows "card (rows S P) = occurrences S P"
proof -
  let ?T = "S @ [sentinel]"
  have "card (rows S P) = length (filter (prefix P) (table S))"
    by (simp add: rows_def length_filter_conv_card length_table)
  also have "\<dots> = length (filter (prefix P) (cyclic_rotations S))"
  proof -
    have "mset (filter (prefix P) (table S)) = mset (filter (prefix P) (cyclic_rotations S))"
      by (simp add: table_def)
    then show ?thesis by (rule mset_eq_length)
  qed
  also have "\<dots> = length (filter (\<lambda>i. prefix P (rotate i ?T)) [0..<Suc (length S)])"
    by (simp add: cyclic_rotations_rotate filter_map comp_def del: upt_Suc)
  also have "filter (\<lambda>i. prefix P (rotate i ?T)) [0..<Suc (length S)]
      = filter (\<lambda>i. take (length P) (drop i S) = P) [0..<Suc (length S)]"
  proof (rule filter_cong[OF refl])
    fix i assume "i \<in> set [0..<Suc (length S)]"
    then have i: "i \<le> length S" by auto
    show "prefix P (rotate i ?T) \<longleftrightarrow> take (length P) (drop i S) = P"
      unfolding rotation_form[OF i] by (rule prefix_before_sentinel[OF P(2)])
  qed
  also have "\<dots> = filter (\<lambda>i. take (length P) (drop i S) = P) [0..<length S]"
    using P(1) by auto
  finally show ?thesis by (simp add: occurrences_def)
qed

lemma rows_Nil: "rows S [] = {j. 0 \<le> int j \<and> int j \<le> int (length (column S)) - 1}"
  by (auto simp: rows_def length_column)

text \<open>
  Claim C2 counts, for every nonempty pattern, the start offsets of \<open>S\<close> at which
  the pattern occurs. A pattern may hold the sentinel, and then the search matches
  across the end of \<open>S\<close>: \<open>"$A"\<close> does not occur in \<open>"AB"\<close>, and the
  code counts it once.
\<close>
theorem bwa_search_wraps_counterexample:
  "sentinel \<notin> set ''AB'' \<and> ''$A'' \<noteq> [] \<and> occurrences ''AB'' ''$A'' = 0
     \<and> bwa_search ''AB'' ''$A'' = Some (Inr 1)"
  by (simp add: sentinel_def occurrences_def) code_simp

text \<open>
  Claim C2, amended: for every string \<open>S\<close> without the sentinel and every nonempty
  pattern \<open>P\<close> without the sentinel, \<open>bwa_search(S, P)\<close> is the number of start
  offsets \<open>i\<close> of \<open>S\<close> with \<open>S[i:i+len(P)] = P\<close>, overlapping occurrences
  counted.
\<close>
theorem bwa_search_counts:
  assumes "sentinel \<notin> set S" and "P \<noteq> []" and "sentinel \<notin> set P"
  shows "bwa_search S P = Some (Inr (int (occurrences S P)))"
proof -
  let ?L = "column S"
  have "bw_loop ?L (map (\<lambda>i. int (lf ?L i)) [0..<length ?L]) 0 (int (length ?L) - 1) P
      = Some (Inr (int (card (rows S (P @ [])))))"
    using assms(1,3) by (intro bw_loop_rows rows_Nil) (simp_all add: length_column)
  then show ?thesis
    using card_rows_occurrences[OF assms]
    by (simp add: bwa_search_def bwt_column last_to_first_index_eq bw_matching_def Let_def)
qed

theorem bwa_search_counts_witness:
  "sentinel \<notin> set ''TCGACGAT'' \<and> ''CGA'' \<noteq> [] \<and> sentinel \<notin> set ''CGA''
     \<and> bwa_search ''TCGACGAT'' ''CGA'' = Some (Inr 2) \<and> occurrences ''TCGACGAT'' ''CGA'' = 2"
proof -
  have h: "sentinel \<notin> set ''TCGACGAT''" "''CGA'' \<noteq> []" "sentinel \<notin> set ''CGA''"
    by (simp_all add: sentinel_def)
  have "occurrences ''TCGACGAT'' ''CGA'' = 2" by code_simp
  with bwa_search_counts[OF h] h show ?thesis by simp
qed

end
